theory Spec2Isabelle
  imports Main "HOL-Library.Word"
begin

section \<open>Machine integers and faults\<close>

text \<open>
  The sources work on fixed-width integers. Amounts are \<open>share_type\<close>, percentages are
  \<open>uint16_t\<close>, account identifiers and the accumulation window are \<open>uint64_t\<close>, points in
  time are \<open>fc::time_point_sec\<close> (a 32-bit count of seconds) and the wide intermediates
  are \<open>fc::uint128\<close>. Every throw and every failed assertion of the sources is a value of
  \<open>error\<close>; a function that can fail returns \<open>error + 'a\<close> with \<open>Inl\<close> for the fault.
\<close>

datatype error =
    overflow_exception
  | underflow_exception
  | uint128_assert_exception
  | assertion_failure nat
  | invalid_op_fee
  | invalid_account_uid
  | add_and_remove_same_platform "64 word"

type_synonym share_type = "64 word"
type_synonym account_uid_type = "64 word"
type_synonym time_point_sec = "32 word"
type_synonym uint128_t = "128 word"

definition bind :: "error + 'a \<Rightarrow> ('a \<Rightarrow> error + 'b) \<Rightarrow> error + 'b" where
  "bind m f = (case m of Inl e \<Rightarrow> Inl e | Inr x \<Rightarrow> f x)"

text \<open>
  Modelled from the spec: \<open>share_type\<close> is declared outside these sources. The spec speaks
  of 64-bit amounts whose overflow is a fatal fault, so a share is a signed 64-bit value
  (read with \<open>sint\<close>) whose \<open>+\<close> and \<open>-\<close> are checked: a result outside the signed
  64-bit range throws instead of wrapping.
\<close>

definition safe_add :: "share_type \<Rightarrow> share_type \<Rightarrow> error + share_type" where
  "safe_add a b =
     (if 2 ^ 63 \<le> sint a + sint b then Inl overflow_exception
      else if sint a + sint b < - (2 ^ 63) then Inl underflow_exception
      else Inr (a + b))"

definition safe_sub :: "share_type \<Rightarrow> share_type \<Rightarrow> error + share_type" where
  "safe_sub a b =
     (if sint a - sint b < - (2 ^ 63) then Inl underflow_exception
      else if 2 ^ 63 \<le> sint a - sint b then Inl overflow_exception
      else Inr (a - b))"

text \<open>
  Modelled from the spec: \<open>GRAPHENE_100_PERCENT\<close> is a constant declared outside these
  sources; the spec gives the full percentage as 10000.
\<close>

definition GRAPHENE_100_PERCENT :: int where
  "GRAPHENE_100_PERCENT = 10000"

text \<open>
  \<open>fc::uint128::to_uint64\<close> belongs to the \<open>fc\<close> library, outside these sources: it hands
  back the low 64 bits after checking that the high 64 bits are zero, and the check
  throws when they are not (the spec counts overflow in the fee cutter among the fatal
  faults).
\<close>

definition to_uint64 :: "uint128_t \<Rightarrow> error + 64 word" where
  "to_uint64 r = (if drop_bit 64 r = 0 then Inr (ucast r) else Inl uint128_assert_exception)"

text \<open>
  The C \<open>assert\<close> of a debug build: a false condition aborts. The fault carries the
  source line of the assertion.
\<close>

definition c_assert :: "bool \<Rightarrow> nat \<Rightarrow> error + unit" where
  "c_assert cond line = (if cond then Inr () else Inl (assertion_failure line))"


section \<open>Fixed-point fee cutter\<close>

text \<open>
  \<open>cut_fee(a, p)\<close>: the 128-bit value is built from the signed 64-bit \<open>a.value\<close> (sign
  extension, \<open>scast\<close>), multiplied by \<open>p\<close> and divided by the full percentage, both
  unsigned and modulo \<open>2 ^ 128\<close>, and narrowed by \<open>to_uint64\<close>.
\<close>

definition cut_fee :: "share_type \<Rightarrow> 16 word \<Rightarrow> error + share_type" where
  "cut_fee a p =
     (if a = 0 \<or> p = 0 then Inr 0
      else if uint p = GRAPHENE_100_PERCENT then Inr a
      else
        let r = (scast a :: uint128_t);
            r = r * ucast p;
            r = r div word_of_int GRAPHENE_100_PERCENT
        in to_uint64 r)"


section \<open>Accounts and their statistics\<close>

text \<open>
  Modelled from the spec: the object types are declared in headers outside these
  sources. The fields are those of the spec's data model that the functions below read
  and write, with the types the functions use them at; the three percentages are read
  from the account object, as the code does. \<open>'k\<close> is \<open>public_key_type\<close>, which the index
  keeps in ordered sets, hence the order on it. An authority's account references are
  keyed by a pair of the referenced uid and the kind of authority asked of it
  (\<open>auth.first.uid\<close> in the sources; the field is \<open>auth_uid\<close> here, \<open>uid\<close> being the
  account's own field).
\<close>

datatype authority_kind = owner_auth | active_auth | secondary_auth

record account_uid_auth_type =
  auth_uid :: account_uid_type
  auth_type :: authority_kind

record 'k authority =
  weight_threshold :: "32 word"
  account_uid_auths :: "(account_uid_auth_type \<times> 16 word) list"
  key_auths :: "('k \<times> 16 word) list"

record 'k account_object =
  uid :: account_uid_type
  registrar :: account_uid_type
  referrer :: account_uid_type
  lifetime_referrer :: account_uid_type
  network_fee_percentage :: "16 word"
  lifetime_referrer_fee_percentage :: "16 word"
  referrer_rewards_percentage :: "16 word"
  owner :: "'k authority"
  active :: "'k authority"
  secondary :: "'k authority"
  memo_key :: 'k

record account_statistics_object =
  pending_fees :: share_type
  pending_vested_fees :: share_type
  lifetime_fees_paid :: share_type
  core_balance :: share_type
  core_leased_in :: share_type
  core_leased_out :: share_type
  average_coins :: share_type
  average_coins_last_update :: time_point_sec
  coin_seconds_earned :: uint128_t
  coin_seconds_earned_last_update :: time_point_sec


section \<open>Fee distribution\<close>

text \<open>
  What \<open>process_fees\<close> reads and writes of the object database \<open>d\<close>: the account \<open>a\<close>
  whose fees are paid out, its statistics (\<open>*this\<close>), the core asset's
  \<open>accumulated_fees\<close>, the global parameter \<open>reserve_percent_of_fee\<close>, and the calls made
  to the external \<open>deposit_cashback\<close> (receiver, amount, \<open>require_vesting\<close>), kept in call
  order. Whether the account with a given uid \<open>is_basic_account\<close> at the head block time
  belongs to other objects of the database and is a parameter \<open>is_basic\<close> of the functions.
\<close>

record 'k database =
  account :: "'k account_object"
  statistics :: account_statistics_object
  accumulated_fees :: share_type
  reserve_percent_of_fee :: "16 word"
  cashback_calls :: "(account_uid_type \<times> share_type \<times> bool) list"

definition deposit_cashback ::
  "'k database \<Rightarrow> account_uid_type \<Rightarrow> share_type \<Rightarrow> bool \<Rightarrow> 'k database" where
  "deposit_cashback d receiver amount require_vesting =
     d\<lparr>cashback_calls := cashback_calls d @ [(receiver, amount, require_vesting)]\<rparr>"

text \<open>
  The arithmetic of the \<open>pay_out_fees\<close> closure, in source order. \<open>network_shares\<close> is
  lines 64 to 75 (the network cut, its debug-build split into reserved and accumulated
  parts with both assertions, the lifetime cut and the referral remainder);
  \<open>referral_shares\<close> is lines 84 and 85; \<open>closing_sum\<close> is the left-hand side of the
  closing assertion on line 91, added left to right with the checked \<open>+\<close>.
\<close>

record network_split =
  network_cut :: share_type
  reserveed :: share_type
  accumulated :: share_type
  lifetime_cut :: share_type
  referral :: share_type

record referral_split =
  referrer_cut :: share_type
  registrar_cut :: share_type

definition network_shares ::
  "share_type \<Rightarrow> 16 word \<Rightarrow> 16 word \<Rightarrow> 16 word \<Rightarrow> error + network_split" where
  "network_shares core_fee_total network_pct reserve_pct lifetime_pct =
     bind (cut_fee core_fee_total network_pct) (\<lambda>nc.
     bind (c_assert (nc \<le>s core_fee_total) 65) (\<lambda>_.
     bind (cut_fee nc reserve_pct) (\<lambda>res.
     bind (safe_sub nc res) (\<lambda>acc.
     bind (safe_add acc res) (\<lambda>again.
     bind (c_assert (again = nc) 72) (\<lambda>_.
     bind (cut_fee core_fee_total lifetime_pct) (\<lambda>lc.
     bind (safe_sub core_fee_total nc) (\<lambda>rest.
     bind (safe_sub rest lc) (\<lambda>ref.
       Inr \<lparr>network_cut = nc, reserveed = res, accumulated = acc,
            lifetime_cut = lc, referral = ref\<rparr>)))))))))"

definition referral_shares :: "share_type \<Rightarrow> 16 word \<Rightarrow> error + referral_split" where
  "referral_shares ref referrer_pct =
     bind (cut_fee ref referrer_pct) (\<lambda>rc.
     bind (safe_sub ref rc) (\<lambda>gc.
       Inr \<lparr>referrer_cut = rc, registrar_cut = gc\<rparr>))"

definition closing_sum :: "network_split \<Rightarrow> referral_split \<Rightarrow> error + share_type" where
  "closing_sum n r =
     bind (safe_add (referrer_cut r) (registrar_cut r)) (\<lambda>s1.
     bind (safe_add s1 (accumulated n)) (\<lambda>s2.
     bind (safe_add s2 (reserveed n)) (\<lambda>s3.
       safe_add s3 (lifetime_cut n))))"

definition pay_out_fees ::
  "(account_uid_type \<Rightarrow> bool) \<Rightarrow> 'k database \<Rightarrow> share_type \<Rightarrow> bool \<Rightarrow> error + 'k database" where
  "pay_out_fees is_basic d0 core_fee_total require_vesting =
     (let d1 = (if is_basic (referrer (account d0))
                then d0\<lparr>account := (account d0)\<lparr>referrer := lifetime_referrer (account d0)\<rparr>\<rparr>
                else d0);
          a = account d1
      in
      bind (network_shares core_fee_total (network_fee_percentage a)
              (reserve_percent_of_fee d1) (lifetime_referrer_fee_percentage a)) (\<lambda>n.
      bind (safe_add (accumulated_fees d1) (network_cut n)) (\<lambda>fees.
      bind (referral_shares (referral n) (referrer_rewards_percentage a)) (\<lambda>r.
        let d2 = d1\<lparr>accumulated_fees := fees\<rparr>;
            d3 = deposit_cashback d2 (lifetime_referrer a) (lifetime_cut n) require_vesting;
            d4 = deposit_cashback d3 (referrer a) (referrer_cut r) require_vesting;
            d5 = deposit_cashback d4 (registrar a) (registrar_cut r) require_vesting
        in
        bind (closing_sum n r) (\<lambda>total.
        bind (c_assert (total = core_fee_total) 91) (\<lambda>_.
          Inr d5))))))"

definition process_fees ::
  "(account_uid_type \<Rightarrow> bool) \<Rightarrow> 'k database \<Rightarrow> error + 'k database" where
  "process_fees is_basic d =
     (if 0 <s pending_fees (statistics d) \<or> 0 <s pending_vested_fees (statistics d) then
        bind (pay_out_fees is_basic d (pending_fees (statistics d)) True) (\<lambda>d1.
        bind (pay_out_fees is_basic d1 (pending_vested_fees (statistics d1)) False) (\<lambda>d2.
        bind (safe_add (pending_fees (statistics d2)) (pending_vested_fees (statistics d2))) (\<lambda>both.
        bind (safe_add (lifetime_fees_paid (statistics d2)) both) (\<lambda>paid.
          Inr (d2\<lparr>statistics := (statistics d2)
                 \<lparr>lifetime_fees_paid := paid, pending_fees := 0, pending_vested_fees := 0\<rparr>\<rparr>)))))
      else Inr d)"


section \<open>Stake-time accumulator\<close>

definition now_rounded :: "time_point_sec \<Rightarrow> time_point_sec" where
  "now_rounded now = (now div 60) * 60"

text \<open>
  \<open>(t - m).to_seconds()\<close> on two \<open>fc::time_point_sec\<close> values (the \<open>fc\<close> library, outside
  these sources): the seconds between the two points in time, a signed difference of
  the two second counts held in 64 bits.
\<close>

definition seconds_between :: "time_point_sec \<Rightarrow> time_point_sec \<Rightarrow> 64 word" where
  "seconds_between t m = word_of_int (uint t - uint m)"

definition effective_balance :: "account_statistics_object \<Rightarrow> error + share_type" where
  "effective_balance s =
     bind (safe_add (core_balance s) (core_leased_in s)) (\<lambda>b. safe_sub b (core_leased_out s))"

definition compute_coin_seconds_earned ::
  "account_statistics_object \<Rightarrow> 64 word \<Rightarrow> time_point_sec \<Rightarrow> error + (uint128_t \<times> share_type)" where
  "compute_coin_seconds_earned s window now =
     (let now_r = now_rounded now in
      bind (effective_balance s) (\<lambda>eb.
      bind (if now_r \<le> average_coins_last_update s then Inr (average_coins s)
            else
              let delta_seconds = seconds_between now_r (average_coins_last_update s) in
              if window \<le> delta_seconds then Inr eb
              else
                let old_seconds = window - delta_seconds;
                    old_coin_seconds = (scast (average_coins s) :: uint128_t) * ucast old_seconds;
                    new_coin_seconds = (scast eb :: uint128_t) * ucast delta_seconds;
                    max_coin_seconds = old_coin_seconds + new_coin_seconds
                in to_uint64 (max_coin_seconds div ucast window)) (\<lambda>new_average_coins.
        let max_coin_seconds = (scast new_average_coins :: uint128_t) * ucast window;
            new_coin_seconds_earned =
              (if now_r \<le> coin_seconds_earned_last_update s then coin_seconds_earned s
               else
                 let delta_seconds = seconds_between now_r (coin_seconds_earned_last_update s);
                     delta_coin_seconds = (scast eb :: uint128_t) * scast delta_seconds
                 in coin_seconds_earned s + delta_coin_seconds);
            new_coin_seconds_earned =
              (if max_coin_seconds < new_coin_seconds_earned then max_coin_seconds
               else new_coin_seconds_earned)
        in Inr (new_coin_seconds_earned, new_average_coins))))"

definition update_coin_seconds_earned ::
  "account_statistics_object \<Rightarrow> 64 word \<Rightarrow> time_point_sec \<Rightarrow> error + account_statistics_object" where
  "update_coin_seconds_earned s window now =
     (let now_r = now_rounded now in
      if now_r \<le> coin_seconds_earned_last_update s \<and> now_r \<le> average_coins_last_update s
      then Inr s
      else
        bind (compute_coin_seconds_earned s window now_r) (\<lambda>result.
          Inr (s\<lparr>coin_seconds_earned := fst result,
                 coin_seconds_earned_last_update := now_r,
                 average_coins := snd result,
                 average_coins_last_update := now_r\<rparr>)))"

definition set_coin_seconds_earned ::
  "account_statistics_object \<Rightarrow> uint128_t \<Rightarrow> time_point_sec \<Rightarrow> account_statistics_object" where
  "set_coin_seconds_earned s new_coin_seconds now =
     (let now_r = now_rounded now;
          s1 = s\<lparr>coin_seconds_earned := new_coin_seconds\<rparr>
      in if coin_seconds_earned_last_update s1 < now_r
         then s1\<lparr>coin_seconds_earned_last_update := now_r\<rparr>
         else s1)"

text \<open>
  A history of the accumulator: between two calls of \<open>update_coin_seconds_earned\<close> the
  three balance components are overwritten with arbitrary values. \<open>update_sequence\<close>
  runs the calls in order with one window and returns the record after each call; a
  fault ends the run.
\<close>

record balance_update =
  new_core_balance :: share_type
  new_core_leased_in :: share_type
  new_core_leased_out :: share_type
  update_time :: time_point_sec

definition set_balances :: "account_statistics_object \<Rightarrow> balance_update \<Rightarrow> account_statistics_object" where
  "set_balances s u =
     s\<lparr>core_balance := new_core_balance u,
       core_leased_in := new_core_leased_in u,
       core_leased_out := new_core_leased_out u\<rparr>"

fun update_sequence ::
  "64 word \<Rightarrow> account_statistics_object \<Rightarrow> balance_update list \<Rightarrow> error + account_statistics_object list" where
  "update_sequence window s [] = Inr []"
| "update_sequence window s (u # us) =
     bind (update_coin_seconds_earned (set_balances s u) window (update_time u)) (\<lambda>s1.
     bind (update_sequence window s1 us) (\<lambda>rest. Inr (s1 # rest)))"

text \<open>
  The ceiling as the code computes it on line 141 (an unsigned 128-bit product of the
  sign-extended average and the window), and the condition under which the amended
  monotonicity holds: the effective balance that each update installs is computed
  without a fault, is at least \<open>lo\<close> for the first update, and never falls from one
  update to the next.
\<close>

definition within_window_bound :: "64 word \<Rightarrow> account_statistics_object \<Rightarrow> bool" where
  "within_window_bound window s \<longleftrightarrow>
     coin_seconds_earned s \<le> (scast (average_coins s) :: uint128_t) * ucast window"

definition updated_balance :: "balance_update \<Rightarrow> error + share_type" where
  "updated_balance u =
     bind (safe_add (new_core_balance u) (new_core_leased_in u)) (\<lambda>b.
       safe_sub b (new_core_leased_out u))"

fun balances_never_fall :: "share_type \<Rightarrow> balance_update list \<Rightarrow> bool" where
  "balances_never_fall lo [] = True"
| "balances_never_fall lo (u # us) =
     (case updated_balance u of
        Inl _ \<Rightarrow> False
      | Inr b \<Rightarrow> lo \<le>s b \<and> balances_never_fall b us)"


section \<open>Membership index\<close>

text \<open>
  \<open>std::set\<close> is a set here and a loop over one visits its elements in ascending order
  (\<open>sorted_list_of_set\<close>). The two \<open>std::map\<close>s are total functions: \<open>operator[]\<close> on a
  missing key creates the empty set, and an emptied set stays in the map, so a key that
  is absent and a key with the empty set are the same relation.
\<close>

record 'k account_member_index =
  account_to_account_memberships :: "account_uid_type \<Rightarrow> account_uid_type set"
  account_to_key_memberships :: "'k \<Rightarrow> account_uid_type set"
  before_key_members :: "'k set"
  before_account_members :: "account_uid_type set"

definition get_account_members :: "'k account_object \<Rightarrow> account_uid_type set" where
  "get_account_members a =
     (let result = {};
          result = fold (\<lambda>auth r. insert (auth_uid (fst auth)) r) (account_uid_auths (owner a)) result;
          result = fold (\<lambda>auth r. insert (auth_uid (fst auth)) r) (account_uid_auths (active a)) result;
          result = fold (\<lambda>auth r. insert (auth_uid (fst auth)) r) (account_uid_auths (secondary a)) result
      in result)"

definition get_key_members :: "'k account_object \<Rightarrow> 'k set" where
  "get_key_members a =
     (let result = {};
          result = fold (\<lambda>auth r. insert (fst auth) r) (key_auths (owner a)) result;
          result = fold (\<lambda>auth r. insert (fst auth) r) (key_auths (active a)) result;
          result = insert (memo_key a) result
      in result)"

definition insert_at :: "account_uid_type \<Rightarrow> 'm \<Rightarrow> ('m \<Rightarrow> account_uid_type set) \<Rightarrow> ('m \<Rightarrow> account_uid_type set)" where
  "insert_at u item rel = rel(item := insert u (rel item))"

definition erase_at :: "account_uid_type \<Rightarrow> 'm \<Rightarrow> ('m \<Rightarrow> account_uid_type set) \<Rightarrow> ('m \<Rightarrow> account_uid_type set)" where
  "erase_at u item rel = rel(item := rel item - {u})"

text \<open>\<open>std::set_difference\<close> of two ordered sets: what is in the first and not in the second, ascending.\<close>

definition set_difference :: "('m::linorder) set \<Rightarrow> 'm set \<Rightarrow> 'm list" where
  "set_difference xs ys = sorted_list_of_set (xs - ys)"

definition object_inserted :: "('k::linorder) account_member_index \<Rightarrow> 'k account_object \<Rightarrow> 'k account_member_index" where
  "object_inserted idx a =
     (let account_members = get_account_members a;
          idx = idx\<lparr>account_to_account_memberships :=
                   fold (insert_at (uid a)) (sorted_list_of_set account_members)
                     (account_to_account_memberships idx)\<rparr>;
          key_members = get_key_members a
      in idx\<lparr>account_to_key_memberships :=
               fold (insert_at (uid a)) (sorted_list_of_set key_members)
                 (account_to_key_memberships idx)\<rparr>)"

definition object_removed :: "('k::linorder) account_member_index \<Rightarrow> 'k account_object \<Rightarrow> 'k account_member_index" where
  "object_removed idx a =
     (let key_members = get_key_members a;
          idx = idx\<lparr>account_to_key_memberships :=
                   fold (erase_at (uid a)) (sorted_list_of_set key_members)
                     (account_to_key_memberships idx)\<rparr>;
          account_members = get_account_members a
      in idx\<lparr>account_to_account_memberships :=
               fold (erase_at (uid a)) (sorted_list_of_set account_members)
                 (account_to_account_memberships idx)\<rparr>)"

definition about_to_modify :: "('k::linorder) account_member_index \<Rightarrow> 'k account_object \<Rightarrow> 'k account_member_index" where
  "about_to_modify idx before_obj =
     (let idx = idx\<lparr>before_key_members := {}, before_account_members := {}\<rparr>;
          idx = idx\<lparr>before_key_members := get_key_members before_obj\<rparr>
      in idx\<lparr>before_account_members := get_account_members before_obj\<rparr>)"

definition object_modified :: "('k::linorder) account_member_index \<Rightarrow> 'k account_object \<Rightarrow> 'k account_member_index" where
  "object_modified idx a =
     (let after_account_members = get_account_members a;
          removed = set_difference (before_account_members idx) after_account_members;
          idx = idx\<lparr>account_to_account_memberships :=
                   fold (erase_at (uid a)) removed (account_to_account_memberships idx)\<rparr>;
          added = set_difference after_account_members (before_account_members idx);
          idx = idx\<lparr>account_to_account_memberships :=
                   fold (insert_at (uid a)) added (account_to_account_memberships idx)\<rparr>;
          after_key_members = get_key_members a;
          removed = set_difference (before_key_members idx) after_key_members;
          idx = idx\<lparr>account_to_key_memberships :=
                   fold (erase_at (uid a)) removed (account_to_key_memberships idx)\<rparr>;
          added = set_difference after_key_members (before_key_members idx)
      in idx\<lparr>account_to_key_memberships :=
               fold (insert_at (uid a)) added (account_to_key_memberships idx)\<rparr>)"

text \<open>
  The object store that owns the accounts and drives the hooks is outside these sources.
  Its lifecycle events are values; \<open>notify\<close> calls the hooks as the store does (a
  modification is \<open>about_to_modify\<close> on the old object and then \<open>object_modified\<close> on
  the new one), \<open>live_after\<close> keeps the list of live accounts, and \<open>valid_event\<close> says
  what the store guarantees: an inserted account has a uid no live account has, a
  modified or removed account is live, and a modification keeps the uid. \<open>rebuild\<close> is
  the index built from scratch by inserting every live account into the empty index.
\<close>

datatype 'k lifecycle_event =
    Inserted "'k account_object"
  | Modified "'k account_object" "'k account_object"
  | Removed "'k account_object"

definition empty_index :: "'k account_member_index" where
  "empty_index =
     \<lparr>account_to_account_memberships = (\<lambda>_. {}),
      account_to_key_memberships = (\<lambda>_. {}),
      before_key_members = {},
      before_account_members = {}\<rparr>"

fun notify :: "('k::linorder) account_member_index \<Rightarrow> 'k lifecycle_event \<Rightarrow> 'k account_member_index" where
  "notify idx (Inserted a) = object_inserted idx a"
| "notify idx (Modified before_obj after) = object_modified (about_to_modify idx before_obj) after"
| "notify idx (Removed a) = object_removed idx a"

fun live_after :: "'k account_object list \<Rightarrow> 'k lifecycle_event \<Rightarrow> 'k account_object list" where
  "live_after live (Inserted a) = live @ [a]"
| "live_after live (Modified before_obj after) = map (\<lambda>x. if x = before_obj then after else x) live"
| "live_after live (Removed a) = removeAll a live"

fun valid_event :: "'k account_object list \<Rightarrow> 'k lifecycle_event \<Rightarrow> bool" where
  "valid_event live (Inserted a) = (uid a \<notin> uid ` set live)"
| "valid_event live (Modified before_obj after) = (before_obj \<in> set live \<and> uid after = uid before_obj)"
| "valid_event live (Removed a) = (a \<in> set live)"

fun valid_history :: "'k account_object list \<Rightarrow> 'k lifecycle_event list \<Rightarrow> bool" where
  "valid_history live [] = True"
| "valid_history live (e # es) = (valid_event live e \<and> valid_history (live_after live e) es)"

definition replay :: "('k::linorder) account_member_index \<Rightarrow> 'k lifecycle_event list \<Rightarrow> 'k account_member_index" where
  "replay idx es = fold (\<lambda>e i. notify i e) es idx"

definition live_accounts :: "'k account_object list \<Rightarrow> 'k lifecycle_event list \<Rightarrow> 'k account_object list" where
  "live_accounts live es = fold (\<lambda>e l. live_after l e) es live"

definition rebuild :: "('k::linorder) account_object list \<Rightarrow> 'k account_member_index" where
  "rebuild live = fold (\<lambda>a i. object_inserted i a) live empty_index"

text \<open>
  The relations as the specification words them: the reverse set of a member is the set
  of uids of the live accounts whose current authorities reference it.
\<close>

definition referencing_accounts ::
  "'k account_object list \<Rightarrow> account_uid_type \<Rightarrow> account_uid_type set" where
  "referencing_accounts live m = uid ` {a \<in> set live. m \<in> get_account_members a}"

definition referencing_keys :: "'k account_object list \<Rightarrow> 'k \<Rightarrow> account_uid_type set" where
  "referencing_keys live k = uid ` {a \<in> set live. k \<in> get_key_members a}"

text \<open>
  An index is consistent with a list of live accounts when no two of them share a uid
  and both relations are the ones just defined.
\<close>

definition consistent :: "('k::linorder) account_object list \<Rightarrow> 'k account_member_index \<Rightarrow> bool" where
  "consistent live idx \<longleftrightarrow>
     distinct (map uid live)
     \<and> account_to_account_memberships idx = referencing_accounts live
     \<and> account_to_key_memberships idx = referencing_keys live"


section \<open>Platform vote update: the add/remove scan\<close>

text \<open>
  \<open>platform_vote_update_operation::validate\<close>. \<open>platform_to_add\<close> and \<open>platform_to_remove\<close>
  are \<open>flat_set\<close>s, read here as the lists of their elements in iteration order; the
  \<open>while\<close> loop over the two iterators is \<open>add_remove_scan\<close> and each \<open>for\<close> loop is
  \<open>validate_each\<close>. \<open>validate_op_fee\<close> and \<open>validate_account_uid\<close> are declared outside
  these sources: each is a check that passes or throws its own error, and the conditions
  under which they pass are the parameters \<open>fee_ok\<close> and \<open>uid_ok\<close>.
\<close>

record asset =
  amount :: share_type
  asset_id :: "64 word"

record platform_vote_update_operation =
  fee :: asset
  voter :: account_uid_type
  platform_to_add :: "account_uid_type list"
  platform_to_remove :: "account_uid_type list"

definition validate_op_fee :: "(asset \<Rightarrow> bool) \<Rightarrow> asset \<Rightarrow> error + unit" where
  "validate_op_fee fee_ok f = (if fee_ok f then Inr () else Inl invalid_op_fee)"

definition validate_account_uid :: "(account_uid_type \<Rightarrow> bool) \<Rightarrow> account_uid_type \<Rightarrow> error + unit" where
  "validate_account_uid uid_ok u = (if uid_ok u then Inr () else Inl invalid_account_uid)"

fun add_remove_scan :: "account_uid_type list \<Rightarrow> account_uid_type list \<Rightarrow> error + unit" where
  "add_remove_scan (a # as) (r # rs) =
     (if a = r then Inl (add_and_remove_same_platform a)
      else if a < r then add_remove_scan as (r # rs)
      else add_remove_scan (a # as) rs)"
| "add_remove_scan _ _ = Inr ()"

fun validate_each :: "(account_uid_type \<Rightarrow> bool) \<Rightarrow> account_uid_type list \<Rightarrow> error + unit" where
  "validate_each uid_ok [] = Inr ()"
| "validate_each uid_ok (u # us) = bind (validate_account_uid uid_ok u) (\<lambda>_. validate_each uid_ok us)"

definition validate ::
  "(asset \<Rightarrow> bool) \<Rightarrow> (account_uid_type \<Rightarrow> bool) \<Rightarrow> platform_vote_update_operation \<Rightarrow> error + unit" where
  "validate fee_ok uid_ok vote =
     bind (validate_op_fee fee_ok (fee vote)) (\<lambda>_.
     bind (validate_account_uid uid_ok (voter vote)) (\<lambda>_.
     bind (add_remove_scan (platform_to_add vote) (platform_to_remove vote)) (\<lambda>_.
     bind (validate_each uid_ok (platform_to_add vote)) (\<lambda>_.
       validate_each uid_ok (platform_to_remove vote)))))"


section \<open>Concrete objects\<close>

text \<open>
  A small account with no authority members, a statistics record as it is when first
  created (every field zero) and a database around them; the closed instances of the
  theorems below are stated on these, with \<open>nat\<close> for the public keys.
\<close>

definition no_authority :: "nat authority" where
  "no_authority = \<lparr>weight_threshold = 1, account_uid_auths = [], key_auths = []\<rparr>"

definition example_account :: "nat account_object" where
  "example_account =
     \<lparr>uid = 10, registrar = 1, referrer = 2, lifetime_referrer = 3,
      network_fee_percentage = 2000, lifetime_referrer_fee_percentage = 3000,
      referrer_rewards_percentage = 5000,
      owner = no_authority, active = no_authority, secondary = no_authority, memo_key = 0\<rparr>"

definition fresh_statistics :: account_statistics_object where
  "fresh_statistics =
     \<lparr>pending_fees = 0, pending_vested_fees = 0, lifetime_fees_paid = 0,
      core_balance = 0, core_leased_in = 0, core_leased_out = 0,
      average_coins = 0, average_coins_last_update = 0,
      coin_seconds_earned = 0, coin_seconds_earned_last_update = 0\<rparr>"

definition example_database :: "share_type \<Rightarrow> share_type \<Rightarrow> nat database" where
  "example_database fees vested_fees =
     \<lparr>account = example_account,
      statistics = fresh_statistics\<lparr>pending_fees := fees, pending_vested_fees := vested_fees\<rparr>,
      accumulated_fees = 0, reserve_percent_of_fee = 5000, cashback_calls = []\<rparr>"


text \<open>
  Two histories of the accumulator from the fresh record: in \<open>balance_withdrawn\<close> a
  balance of 1000 is held for a minute and then withdrawn; in \<open>balance_raised\<close> it is
  raised to 1500 instead.
\<close>

definition balance_withdrawn :: "balance_update list" where
  "balance_withdrawn =
     [\<lparr>new_core_balance = 1000, new_core_leased_in = 0, new_core_leased_out = 0, update_time = 60\<rparr>,
      \<lparr>new_core_balance = 0, new_core_leased_in = 0, new_core_leased_out = 0, update_time = 120\<rparr>]"

definition balance_raised :: "balance_update list" where
  "balance_raised =
     [\<lparr>new_core_balance = 1000, new_core_leased_in = 0, new_core_leased_out = 0, update_time = 60\<rparr>,
      \<lparr>new_core_balance = 1500, new_core_leased_in = 0, new_core_leased_out = 0, update_time = 120\<rparr>]"


text \<open>
  A history of the index: account 10 is created with key 7 and account 20 in its owner
  authority, account 11 is created with account 20 in its active authority, and account
  10 is then changed to reference account 30 instead of account 20.
\<close>

definition account_10 :: "nat account_object" where
  "account_10 = example_account
     \<lparr>owner := \<lparr>weight_threshold = 1,
                 account_uid_auths = [(\<lparr>auth_uid = 20, auth_type = active_auth\<rparr>, 1)],
                 key_auths = [(7, 1)]\<rparr>,
      memo_key := 9\<rparr>"

definition account_10_changed :: "nat account_object" where
  "account_10_changed = account_10
     \<lparr>owner := \<lparr>weight_threshold = 1,
                 account_uid_auths = [(\<lparr>auth_uid = 30, auth_type = active_auth\<rparr>, 1)],
                 key_auths = [(7, 1)]\<rparr>\<rparr>"

definition account_11 :: "nat account_object" where
  "account_11 = example_account
     \<lparr>uid := 11,
      active := \<lparr>weight_threshold = 1,
                  account_uid_auths = [(\<lparr>auth_uid = 20, auth_type = owner_auth\<rparr>, 1)],
                  key_auths = []\<rparr>,
      memo_key := 8\<rparr>"

definition example_history :: "nat lifecycle_event list" where
  "example_history = [Inserted account_10, Inserted account_11, Modified account_10 account_10_changed]"


section \<open>Faults and word arithmetic\<close>

lemma bind_Inr [simp]: "bind (Inr x) f = f x"
  by (simp add: bind_def)

lemma bind_Inl [simp]: "bind (Inl e) f = Inl e"
  by (simp add: bind_def)

lemma safe_add_Inr:
  "safe_add a b = Inr c \<longleftrightarrow>
     - (2 ^ 63) \<le> sint a + sint b \<and> sint a + sint b < 2 ^ 63 \<and> c = a + b"
  by (auto simp add: safe_add_def)

lemma safe_sub_Inr:
  "safe_sub a b = Inr c \<longleftrightarrow>
     - (2 ^ 63) \<le> sint a - sint b \<and> sint a - sint b < 2 ^ 63 \<and> c = a - b"
  by (auto simp add: safe_sub_def)

lemma sint_add_64:
  assumes "- (2 ^ 63) \<le> sint (a :: 64 word) + sint b" "sint a + sint b < 2 ^ 63"
  shows "sint (a + b) = sint a + sint b"
proof -
  have "signed_take_bit 63 (sint a + sint b) = sint a + sint b"
    using assms by (rule signed_take_bit_int_eq_self)
  then show ?thesis by (simp add: sint_word_ariths)
qed

lemma sint_sub_64:
  assumes "- (2 ^ 63) \<le> sint (a :: 64 word) - sint b" "sint a - sint b < 2 ^ 63"
  shows "sint (a - b) = sint a - sint b"
proof -
  have "signed_take_bit 63 (sint a - sint b) = sint a - sint b"
    using assms by (rule signed_take_bit_int_eq_self)
  then show ?thesis by (simp add: sint_word_ariths)
qed

lemma safe_add_sint: "safe_add a b = Inr c \<Longrightarrow> sint c = sint a + sint b"
  by (simp add: safe_add_Inr sint_add_64)

lemma safe_sub_sint: "safe_sub a b = Inr c \<Longrightarrow> sint c = sint a - sint b"
  by (simp add: safe_sub_Inr sint_sub_64)

lemma sint_range_64: "- (2 ^ 63) \<le> sint (a :: 64 word) \<and> sint a < 2 ^ 63"
  using sint_ge [of a] sint_lt [of a] by simp

lemma sint_scast_128: "sint (scast (a :: 64 word) :: 128 word) = sint a"
proof -
  have "- (2 ^ 63) \<le> sint a" "sint a < 2 ^ 63" using sint_range_64 [of a] by simp_all
  then have "- (2 ^ 127) \<le> sint a" "sint a < 2 ^ 127" by simp_all
  then have "signed_take_bit 127 (sint a) = sint a" by (rule signed_take_bit_int_eq_self)
  then show ?thesis by (simp add: signed_scast_eq)
qed

lemma uint_scast_128: "uint (scast (a :: 64 word) :: 128 word) = sint a mod 2 ^ 128"
  using uint_sint [of "scast a :: 128 word"] by (simp add: sint_scast_128 take_bit_eq_mod)

lemma uint_scast_128_nonneg:
  assumes "0 \<le> sint (a :: 64 word)"
  shows "uint (scast a :: 128 word) = sint a"
proof -
  have "sint a < 2 ^ 63" using sint_range_64 [of a] by simp
  then have "sint a < 2 ^ 128" by simp
  with assms show ?thesis by (simp add: uint_scast_128)
qed

lemma uint_scast_128_neg:
  assumes "sint (a :: 64 word) < 0"
  shows "uint (scast a :: 128 word) = 2 ^ 128 + sint a"
proof -
  have "- (2 ^ 63) \<le> sint a" using sint_range_64 [of a] by simp
  then have "0 \<le> 2 ^ 128 + sint a" by simp
  moreover have "2 ^ 128 + sint a < 2 ^ 128" using assms by simp
  ultimately have "(2 ^ 128 + sint a) mod 2 ^ 128 = 2 ^ 128 + sint a"
    by (rule mod_pos_pos_trivial)
  moreover have "(2 ^ 128 + sint a) mod 2 ^ 128 = sint a mod 2 ^ 128"
    by (simp only: mod_add_self1)
  ultimately show ?thesis by (simp only: uint_scast_128)
qed

lemma uint_ucast_16_128: "uint (ucast (p :: 16 word) :: 128 word) = uint p"
  by (simp add: uint_up_ucast is_up)

lemma uint_ucast_64_128: "uint (ucast (p :: 64 word) :: 128 word) = uint p"
  by (simp add: uint_up_ucast is_up)

lemma hi_zero_iff: "drop_bit 64 (r :: 128 word) = 0 \<longleftrightarrow> uint r < 2 ^ 64"
proof -
  have "drop_bit 64 r = 0 \<longleftrightarrow> uint (r div 2 ^ 64) = 0"
    by (simp add: drop_bit_eq_div uint_0_iff)
  also have "\<dots> \<longleftrightarrow> uint r div 2 ^ 64 = 0" by (simp add: uint_div)
  also have "\<dots> \<longleftrightarrow> uint r < 2 ^ 64"
    using uint_nonnegative [of r] by (auto simp add: zdiv_eq_0_iff)
  finally show ?thesis .
qed

lemma to_uint64_Inr:
  assumes "uint r < 2 ^ 64"
  shows "to_uint64 r = Inr (ucast r)"
  using assms by (simp add: to_uint64_def hi_zero_iff)

lemma to_uint64_Inl:
  assumes "2 ^ 64 \<le> uint r"
  shows "to_uint64 r = Inl uint128_assert_exception"
  using assms by (simp add: to_uint64_def hi_zero_iff)

lemma sint_ucast_128_64:
  assumes "uint (r :: 128 word) < 2 ^ 63"
  shows "sint (ucast r :: 64 word) = uint r"
proof -
  have "- (2 ^ 63) \<le> uint r" by (rule order_trans [OF _ uint_nonnegative]) simp
  then have "signed_take_bit 63 (uint r) = uint r"
    using assms by (rule signed_take_bit_int_eq_self)
  then show ?thesis by (simp add: signed_ucast_eq)
qed

lemma uint_full_percent: "uint (word_of_int GRAPHENE_100_PERCENT :: 128 word) = 10000"
  by (simp add: GRAPHENE_100_PERCENT_def)


section \<open>The fee cutter on non-negative and on negative amounts\<close>

lemma cut_fee_general:
  assumes "a \<noteq> 0" "p \<noteq> 0" "uint p \<noteq> 10000"
  shows "cut_fee a p = to_uint64 ((scast a * ucast p) div word_of_int GRAPHENE_100_PERCENT)"
  using assms by (simp add: cut_fee_def GRAPHENE_100_PERCENT_def Let_def)

lemma cut_fee_product:
  assumes a: "0 \<le> sint (a :: 64 word)" and p: "uint (p :: 16 word) \<le> 10000"
  shows "uint (scast a * ucast p :: 128 word) = sint a * uint p"
proof -
  have a63: "sint a < 2 ^ 63" using sint_range_64 [of a] by simp
  have "sint a * uint p \<le> sint a * 10000" using a p by (rule mult_left_mono [rotated])
  then have "sint a * uint p < 2 ^ 128" using a63 by simp
  moreover have "uint (scast a :: 128 word) * uint (ucast p :: 128 word) = sint a * uint p"
    using a by (simp add: uint_scast_128_nonneg uint_ucast_16_128)
  ultimately have "uint (scast a :: 128 word) * uint (ucast p :: 128 word) < 2 ^ LENGTH(128)"
    by simp
  then have "uint (scast a * ucast p :: 128 word) = uint (scast a :: 128 word) * uint (ucast p :: 128 word)"
    by (simp only: uint_mult_lem)
  then show ?thesis using a by (simp add: uint_scast_128_nonneg uint_ucast_16_128)
qed

lemma cut_fee_nonneg:
  assumes a: "0 \<le> sint a" and p: "uint p \<le> 10000"
  shows "\<exists>r. cut_fee a p = Inr r \<and> sint r = sint a * uint p div 10000"
proof (cases "a = 0 \<or> p = 0")
  case True
  then have "cut_fee a p = Inr 0" by (simp add: cut_fee_def)
  moreover from True have "sint a * uint p div 10000 = 0" by auto
  ultimately show ?thesis by simp
next
  case False
  show ?thesis
  proof (cases "uint p = 10000")
    case True
    with False have "cut_fee a p = Inr a" by (simp add: cut_fee_def GRAPHENE_100_PERCENT_def)
    moreover from True have "sint a * uint p div 10000 = sint a" by simp
    ultimately show ?thesis by simp
  next
    case ne: False
    let ?r = "(scast a * ucast p) div (word_of_int GRAPHENE_100_PERCENT :: 128 word)"
    have a63: "sint a < 2 ^ 63" using sint_range_64 [of a] by simp
    have le: "sint a * uint p \<le> sint a * 10000" using a p by (rule mult_left_mono [rotated])
    have r: "uint ?r = sint a * uint p div 10000"
      by (simp only: uint_div cut_fee_product [OF a p] uint_full_percent)
    have "sint a * uint p div 10000 \<le> sint a * 10000 div 10000"
      using le by (rule zdiv_mono1) simp
    then have "uint ?r \<le> sint a" by (simp add: r)
    then have r63: "uint ?r < 2 ^ 63" using a63 by simp
    then have "uint ?r < 2 ^ 64" by simp
    then have "to_uint64 ?r = Inr (ucast ?r)" by (rule to_uint64_Inr)
    moreover have "sint (ucast ?r :: 64 word) = uint ?r" using r63 by (rule sint_ucast_128_64)
    moreover have "cut_fee a p = to_uint64 ?r" using False ne by (simp add: cut_fee_general)
    ultimately have "cut_fee a p = Inr (ucast ?r) \<and> sint (ucast ?r :: 64 word) = sint a * uint p div 10000"
      by (simp only: r)
    then show ?thesis by (rule exI)
  qed
qed

lemma cut_fee_neg:
  assumes a: "sint a < 0" and p0: "p \<noteq> 0" and p: "uint p < 10000"
  shows "cut_fee a p = Inl uint128_assert_exception"
proof -
  let ?r = "(scast a * ucast p) div (word_of_int GRAPHENE_100_PERCENT :: 128 word)"
  define n where "n = - sint a"
  have n: "0 < n" "n \<le> 2 ^ 63" using a sint_range_64 [of a] by (simp_all add: n_def)
  have up: "0 < uint p" using p0 by (simp add: word_greater_zero_iff [symmetric] word_less_def)
  have bound: "n * uint p \<le> 2 ^ 63 * 10000"
    using n up p by (intro mult_mono) simp_all
  moreover have "0 < n * uint p" using n up by simp
  ultimately have range: "0 \<le> 2 ^ 128 - n * uint p" "2 ^ 128 - n * uint p < 2 ^ 128"
    by simp_all
  have "uint (scast a * ucast p :: 128 word)
          = (uint (scast a :: 128 word) * uint (ucast p :: 128 word)) mod 2 ^ 128"
    by (simp add: uint_word_ariths)
  also have "\<dots> = ((2 ^ 128 + sint a) * uint p) mod 2 ^ 128"
    using a by (simp only: uint_scast_128_neg uint_ucast_16_128)
  also have "(2 ^ 128 + sint a) * uint p = (2 ^ 128 - n * uint p) + 2 ^ 128 * (uint p - 1)"
    by (simp add: n_def algebra_simps)
  also have "\<dots> mod 2 ^ 128 = (2 ^ 128 - n * uint p) mod 2 ^ 128"
    by (simp only: mod_mult_self2)
  also have "\<dots> = 2 ^ 128 - n * uint p" using range by (rule mod_pos_pos_trivial)
  finally have prod: "uint (scast a * ucast p :: 128 word) = 2 ^ 128 - n * uint p" .
  have r: "uint ?r = (2 ^ 128 - n * uint p) div 10000"
    by (simp only: uint_div prod uint_full_percent)
  have "2 ^ 64 * 10000 \<le> 2 ^ 128 - n * uint p" using bound by simp
  then have "2 ^ 64 * 10000 div 10000 \<le> (2 ^ 128 - n * uint p) div 10000"
    by (rule zdiv_mono1) simp
  then have "2 ^ 64 \<le> uint ?r" by (simp add: r)
  then have "to_uint64 ?r = Inl uint128_assert_exception" by (rule to_uint64_Inl)
  moreover have "a \<noteq> 0" using a by auto
  ultimately show ?thesis using p0 p by (simp add: cut_fee_general)
qed

section \<open>Integer facts about proportional shares\<close>

lemma complement_split:
  fixes a p :: int
  assumes "0 \<le> a" "0 \<le> p" "p \<le> 10000"
  shows "a - 1 \<le> a * p div 10000 + a * (10000 - p) div 10000"
    and "a * p div 10000 + a * (10000 - p) div 10000 \<le> a"
proof -
  define u where "u = a * p"
  define v where "v = a * (10000 - p)"
  have sum: "u + v = a * 10000" by (simp add: u_def v_def algebra_simps)
  have "u = 10000 * (u div 10000) + u mod 10000" "v = 10000 * (v div 10000) + v mod 10000"
    by simp_all
  moreover have "0 \<le> u mod 10000" "u mod 10000 < 10000" "0 \<le> v mod 10000" "v mod 10000 < 10000"
    by simp_all
  ultimately have "a - 1 \<le> u div 10000 + v div 10000 \<and> u div 10000 + v div 10000 \<le> a"
    using sum by linarith
  then show "a - 1 \<le> a * p div 10000 + a * (10000 - p) div 10000"
    and "a * p div 10000 + a * (10000 - p) div 10000 \<le> a"
    by (simp_all add: u_def v_def)
qed

lemma share_bounds:
  fixes a p :: int
  assumes "0 \<le> a" "0 \<le> p" "p \<le> 10000"
  shows "0 \<le> a * p div 10000" and "a * p div 10000 \<le> a"
proof -
  have "0 \<le> a * p" using assms by simp
  then show "0 \<le> a * p div 10000" by (simp add: pos_imp_zdiv_nonneg_iff)
  have "a * p \<le> a * 10000" using assms by (intro mult_left_mono) simp_all
  then have "a * p div 10000 \<le> a * 10000 div 10000" by (rule zdiv_mono1) simp
  then show "a * p div 10000 \<le> a" by simp
qed


section \<open>The fee cutter's contract\<close>

text \<open>
  Claim C5. For every amount \<open>amt \<ge> 0\<close> and every percentage \<open>pct\<close> between 0 and
  \<open>GRAPHENE_100_PERCENT\<close>: \<open>cut_fee amt 0\<close> is 0, \<open>cut_fee 0 pct\<close> is 0,
  \<open>cut_fee amt GRAPHENE_100_PERCENT\<close> is \<open>amt\<close>, and in every case \<open>cut_fee amt pct\<close>
  returns a value between 0 and \<open>amt\<close> that is the floor of \<open>amt * pct / GRAPHENE_100_PERCENT\<close>
  (the two special cases agree with that formula); the 128-bit product \<open>amt * pct\<close> does
  not wrap around.
\<close>

theorem cut_fee_contract:
  assumes "0 \<le> sint amt" and "uint pct \<le> GRAPHENE_100_PERCENT"
  shows "cut_fee amt 0 = Inr 0
       \<and> cut_fee 0 pct = Inr 0
       \<and> cut_fee amt (word_of_int GRAPHENE_100_PERCENT) = Inr amt
       \<and> (\<exists>r. cut_fee amt pct = Inr r
              \<and> 0 \<le> sint r \<and> sint r \<le> sint amt
              \<and> sint r = sint amt * uint pct div GRAPHENE_100_PERCENT)
       \<and> uint ((scast amt :: 128 word) * ucast pct) = sint amt * uint pct"
proof -
  have p: "uint pct \<le> 10000" using assms(2) by (simp add: GRAPHENE_100_PERCENT_def)
  have zero_pct: "cut_fee amt 0 = Inr 0" by (simp add: cut_fee_def)
  have zero_amount: "cut_fee 0 pct = Inr 0" by (simp add: cut_fee_def)
  have full: "cut_fee amt (word_of_int GRAPHENE_100_PERCENT) = Inr amt"
    by (simp add: cut_fee_def GRAPHENE_100_PERCENT_def)
  obtain r where r: "cut_fee amt pct = Inr r"
      "sint r = sint amt * uint pct div 10000"
    using cut_fee_nonneg [OF assms(1) p] by blast
  have "0 \<le> sint r" "sint r \<le> sint amt"
    using share_bounds [OF assms(1) _ p] by (simp_all add: r(2))
  with r have general: "\<exists>r. cut_fee amt pct = Inr r
      \<and> 0 \<le> sint r \<and> sint r \<le> sint amt
      \<and> sint r = sint amt * uint pct div GRAPHENE_100_PERCENT"
    by (simp add: GRAPHENE_100_PERCENT_def)
  have nowrap: "uint ((scast amt :: 128 word) * ucast pct) = sint amt * uint pct"
    using assms(1) p by (rule cut_fee_product)
  from zero_pct zero_amount full general nowrap show ?thesis by blast
qed

theorem cut_fee_contract_witness:
  "0 \<le> sint (1000 :: 64 word) \<and> uint (250 :: 16 word) \<le> GRAPHENE_100_PERCENT
   \<and> cut_fee 1000 0 = Inr 0 \<and> cut_fee 0 250 = Inr 0 \<and> cut_fee 1000 10000 = Inr 1000
   \<and> cut_fee 1000 250 = Inr 25"
  using cut_fee_contract [of 1000 250]
  by (simp add: GRAPHENE_100_PERCENT_def cut_fee_def to_uint64_def)

text \<open>
  Claim C9. For every amount \<open>a \<ge> 0\<close> and every percentage \<open>p\<close> between 0 and
  \<open>GRAPHENE_100_PERCENT\<close>, both complementary cuts are returned and
  \<open>a - 1 \<le> cut_fee a p + cut_fee a (GRAPHENE_100_PERCENT - p) \<le> a\<close>.
\<close>

theorem cut_fee_complement:
  assumes "0 \<le> sint a" and "uint p \<le> GRAPHENE_100_PERCENT"
  shows "\<exists>x y. cut_fee a p = Inr x
             \<and> cut_fee a (word_of_int (GRAPHENE_100_PERCENT - uint p)) = Inr y
             \<and> sint a - 1 \<le> sint x + sint y \<and> sint x + sint y \<le> sint a"
proof -
  let ?q = "word_of_int (GRAPHENE_100_PERCENT - uint p) :: 16 word"
  have p: "uint p \<le> 10000" using assms(2) by (simp add: GRAPHENE_100_PERCENT_def)
  have "uint p \<le> uint (10000 :: 16 word)" using p by simp
  then have "uint ((10000 :: 16 word) - p) = uint (10000 :: 16 word) - uint p"
    by (rule iffD1 [OF uint_sub_lem])
  then have q: "uint ?q = 10000 - uint p"
    by (simp add: GRAPHENE_100_PERCENT_def)
  then have q': "uint ?q \<le> 10000" by simp
  obtain x where x: "cut_fee a p = Inr x" "sint x = sint a * uint p div 10000"
    using cut_fee_nonneg [OF assms(1) p] by blast
  obtain y where y: "cut_fee a ?q = Inr y" "sint y = sint a * (10000 - uint p) div 10000"
    using cut_fee_nonneg [OF assms(1) q'] q by auto
  have "sint a - 1 \<le> sint x + sint y" "sint x + sint y \<le> sint a"
    using complement_split [OF assms(1) _ p] by (simp_all add: x(2) y(2))
  with x(1) y(1) show ?thesis by blast
qed

theorem cut_fee_complement_witness:
  "0 \<le> sint (7 :: 64 word) \<and> uint (3333 :: 16 word) \<le> GRAPHENE_100_PERCENT
   \<and> cut_fee 7 3333 = Inr 2
   \<and> cut_fee 7 (word_of_int (GRAPHENE_100_PERCENT - uint (3333 :: 16 word))) = Inr 4
   \<and> sint (7 :: 64 word) - 1 \<le> sint (2 :: 64 word) + sint (4 :: 64 word)"
  using cut_fee_complement [of 7 3333]
  by (simp add: GRAPHENE_100_PERCENT_def cut_fee_def to_uint64_def)

section \<open>Platform vote update: one pass finds every common element\<close>

lemma add_remove_scan_error:
  "add_remove_scan xs ys = Inl e \<Longrightarrow> \<exists>u. e = add_and_remove_same_platform u \<and> u \<in> set xs \<and> u \<in> set ys"
  by (induction xs ys rule: add_remove_scan.induct) (auto split: if_splits)

lemma add_remove_scan_passes:
  assumes "sorted_wrt (<) xs" "sorted_wrt (<) ys"
  shows "add_remove_scan xs ys = Inr () \<longleftrightarrow> set xs \<inter> set ys = {}"
  using assms
proof (induction xs ys rule: add_remove_scan.induct)
  case (1 a as r rs)
  show ?case
  proof (cases "a = r")
    case True
    then show ?thesis by simp
  next
    case False
    show ?thesis
    proof (cases "a < r")
      case True
      have "a \<notin> set (r # rs)" using True "1.prems"(2) by auto
      then have "set (a # as) \<inter> set (r # rs) = set as \<inter> set (r # rs)" by auto
      moreover have "add_remove_scan as (r # rs) = Inr () \<longleftrightarrow> set as \<inter> set (r # rs) = {}"
        using "1.IH"(1) [OF False True] "1.prems" by simp
      ultimately show ?thesis using False True by simp
    next
      case ge: False
      with False have lt: "r < a" by simp
      have "r \<notin> set (a # as)" using lt "1.prems"(1) by auto
      then have "set (a # as) \<inter> set (r # rs) = set (a # as) \<inter> set rs" by auto
      moreover have "add_remove_scan (a # as) rs = Inr () \<longleftrightarrow> set (a # as) \<inter> set rs = {}"
        using "1.IH"(2) [OF False ge] "1.prems" by simp
      ultimately show ?thesis using False ge by simp
    qed
  qed
qed simp_all

lemma validate_each_error: "validate_each uid_ok us = Inl e \<Longrightarrow> e = invalid_account_uid"
  by (induction us) (auto simp add: validate_account_uid_def split: if_splits)

text \<open>
  Claim C10. For strictly ascending (sorted, duplicate-free) \<open>platform_to_add\<close> and
  \<open>platform_to_remove\<close>, the merge scan of \<open>validate\<close> raises the "can not add and remove
  same platform" error exactly when the two sets have a common element; \<open>validate\<close> as a
  whole raises it exactly when, in addition, the fee and voter checks that precede the
  scan pass.
\<close>

theorem add_remove_scan_detects_intersection:
  assumes "sorted_wrt (<) (platform_to_add vote)" and "sorted_wrt (<) (platform_to_remove vote)"
  shows "((\<exists>u. add_remove_scan (platform_to_add vote) (platform_to_remove vote)
                 = Inl (add_and_remove_same_platform u))
            \<longleftrightarrow> set (platform_to_add vote) \<inter> set (platform_to_remove vote) \<noteq> {})
       \<and> ((\<exists>u. validate fee_ok uid_ok vote = Inl (add_and_remove_same_platform u))
            \<longleftrightarrow> fee_ok (fee vote) \<and> uid_ok (voter vote)
                \<and> set (platform_to_add vote) \<inter> set (platform_to_remove vote) \<noteq> {})"
proof -
  let ?scan = "add_remove_scan (platform_to_add vote) (platform_to_remove vote)"
  have scan: "(\<exists>u. ?scan = Inl (add_and_remove_same_platform u))
                \<longleftrightarrow> set (platform_to_add vote) \<inter> set (platform_to_remove vote) \<noteq> {}"
  proof (cases ?scan)
    case (Inl e)
    then show ?thesis
      using add_remove_scan_error [OF Inl] add_remove_scan_passes [OF assms] by auto
  next
    case (Inr u)
    then show ?thesis using add_remove_scan_passes [OF assms] by simp
  qed
  have "(\<exists>u. validate fee_ok uid_ok vote = Inl (add_and_remove_same_platform u))
          \<longleftrightarrow> fee_ok (fee vote) \<and> uid_ok (voter vote)
              \<and> (\<exists>u. ?scan = Inl (add_and_remove_same_platform u))"
  proof (cases ?scan)
    case (Inl e)
    then show ?thesis
      by (auto simp add: validate_def validate_op_fee_def validate_account_uid_def)
  next
    case (Inr u)
    then show ?thesis
      by (cases "validate_each uid_ok (platform_to_add vote)")
         (auto simp add: validate_def validate_op_fee_def validate_account_uid_def
               dest: validate_each_error)
  qed
  with scan show ?thesis by simp
qed

theorem add_remove_scan_detects_intersection_witness:
  "sorted_wrt (<) [1, 3, 5 :: 64 word] \<and> sorted_wrt (<) [2, 3 :: 64 word]
   \<and> add_remove_scan [1, 3, 5] [2, 3] = Inl (add_and_remove_same_platform 3)
   \<and> validate (\<lambda>_. True) (\<lambda>_. True)
        \<lparr>fee = \<lparr>amount = 0, asset_id = 0\<rparr>, voter = 7,
         platform_to_add = [1, 3, 5], platform_to_remove = [2, 3]\<rparr>
       = Inl (add_and_remove_same_platform 3)
   \<and> set [1, 3, 5 :: 64 word] \<inter> set [2, 3] \<noteq> {}"
  using add_remove_scan_detects_intersection
    [of "\<lparr>fee = \<lparr>amount = 0, asset_id = 0\<rparr>, voter = 7,
          platform_to_add = [1, 3, 5], platform_to_remove = [2, 3]\<rparr>" "\<lambda>_. True" "\<lambda>_. True"]
  by (simp add: validate_def validate_op_fee_def validate_account_uid_def)

section \<open>Fee distribution: the shares add up to the total\<close>

lemma bind_eq_Inr: "bind m f = Inr y \<longleftrightarrow> (\<exists>x. m = Inr x \<and> f x = Inr y)"
  by (cases m) simp_all

lemma c_assert_Inr: "c_assert cond line = Inr u \<longleftrightarrow> cond"
  by (simp add: c_assert_def)

lemma cut_fee_between:
  assumes p: "uint p \<le> 10000" and r: "cut_fee a p = Inr r"
  shows "(0 \<le> sint a \<longrightarrow> 0 \<le> sint r \<and> sint r \<le> sint a)
       \<and> (sint a < 0 \<longrightarrow> sint a \<le> sint r \<and> sint r \<le> 0)"
proof (cases "0 \<le> sint a")
  case True
  obtain r' where "cut_fee a p = Inr r'" "sint r' = sint a * uint p div 10000"
    using cut_fee_nonneg [OF True p] by blast
  with r have "sint r = sint a * uint p div 10000" by simp
  then show ?thesis using share_bounds [OF True _ p] True by simp
next
  case False
  then have neg: "sint a < 0" by simp
  show ?thesis
  proof (cases "p = 0")
    case True
    with r have "r = 0" by (simp add: cut_fee_def)
    then show ?thesis using neg by simp
  next
    case p0: False
    show ?thesis
    proof (cases "uint p = 10000")
      case True
      moreover have "a \<noteq> 0" using neg by auto
      ultimately have "r = a" using r p0 by (simp add: cut_fee_def GRAPHENE_100_PERCENT_def)
      then show ?thesis using neg by simp
    next
      case False
      with p have "uint p < 10000" by simp
      then have "cut_fee a p = Inl uint128_assert_exception" using neg p0 by (intro cut_fee_neg)
      with r show ?thesis by simp
    qed
  qed
qed

lemma network_shares_Inr:
  assumes "network_shares t np rp lp = Inr n"
  shows "cut_fee t np = Inr (network_cut n)"
    and "sint (network_cut n) \<le> sint t"
    and "cut_fee (network_cut n) rp = Inr (reserveed n)"
    and "sint (accumulated n) = sint (network_cut n) - sint (reserveed n)"
    and "cut_fee t lp = Inr (lifetime_cut n)"
    and "sint (referral n) = sint t - sint (network_cut n) - sint (lifetime_cut n)"
proof -
  from assms obtain nc res acc lc rest ref where
      nc: "cut_fee t np = Inr nc" and le: "nc \<le>s t"
      and res: "cut_fee nc rp = Inr res" and acc: "safe_sub nc res = Inr acc"
      and lc: "cut_fee t lp = Inr lc" and rest: "safe_sub t nc = Inr rest"
      and ref: "safe_sub rest lc = Inr ref"
      and n: "n = \<lparr>network_cut = nc, reserveed = res, accumulated = acc,
                   lifetime_cut = lc, referral = ref\<rparr>"
    unfolding network_shares_def bind_eq_Inr c_assert_Inr by blast
  show "cut_fee t np = Inr (network_cut n)" using nc n by simp
  show "sint (network_cut n) \<le> sint t" using le n by (simp add: word_sle_eq)
  show "cut_fee (network_cut n) rp = Inr (reserveed n)" using res n by simp
  show "sint (accumulated n) = sint (network_cut n) - sint (reserveed n)"
    using safe_sub_sint [OF acc] n by simp
  show "cut_fee t lp = Inr (lifetime_cut n)" using lc n by simp
  show "sint (referral n) = sint t - sint (network_cut n) - sint (lifetime_cut n)"
    using safe_sub_sint [OF rest] safe_sub_sint [OF ref] n by simp
qed

lemma referral_shares_Inr:
  assumes "referral_shares ref pct = Inr r"
  shows "cut_fee ref pct = Inr (referrer_cut r)"
    and "sint (registrar_cut r) = sint ref - sint (referrer_cut r)"
proof -
  from assms obtain rc gc where
      rc: "cut_fee ref pct = Inr rc" and gc: "safe_sub ref rc = Inr gc"
      and r: "r = \<lparr>referrer_cut = rc, registrar_cut = gc\<rparr>"
    unfolding referral_shares_def bind_eq_Inr by blast
  show "cut_fee ref pct = Inr (referrer_cut r)" using rc r by simp
  show "sint (registrar_cut r) = sint ref - sint (referrer_cut r)"
    using safe_sub_sint [OF gc] r by simp
qed

lemma safe_add_in_range:
  assumes "- (2 ^ 63) \<le> sint a + sint b" "sint a + sint b < 2 ^ 63"
  shows "\<exists>c. safe_add a b = Inr c \<and> sint c = sint a + sint b"
  using assms by (simp add: safe_add_def sint_add_64)

lemma safe_sub_in_range:
  assumes "- (2 ^ 63) \<le> sint a - sint b" "sint a - sint b < 2 ^ 63"
  shows "\<exists>c. safe_sub a b = Inr c \<and> sint c = sint a - sint b"
  using assms by (simp add: safe_sub_def sint_sub_64)

lemma sint_eq_64: "sint (a :: 64 word) = sint b \<Longrightarrow> a = b"
  by (rule signed_word_eqI)

lemma closing_sum_total:
  assumes np: "uint np \<le> 10000" and rp: "uint rp \<le> 10000" and lp: "uint lp \<le> 10000"
    and n: "network_shares t np rp lp = Inr n"
    and r: "referral_shares (referral n) pct = Inr r"
  shows "closing_sum n r = Inr t"
proof -
  note N = network_shares_Inr [OF n]
  note R = referral_shares_Inr [OF r]
  have nc: "(0 \<le> sint t \<longrightarrow> 0 \<le> sint (network_cut n) \<and> sint (network_cut n) \<le> sint t)
          \<and> (sint t < 0 \<longrightarrow> sint t \<le> sint (network_cut n) \<and> sint (network_cut n) \<le> 0)"
    using cut_fee_between [OF np N(1)] .
  have lc: "(0 \<le> sint t \<longrightarrow> 0 \<le> sint (lifetime_cut n) \<and> sint (lifetime_cut n) \<le> sint t)
          \<and> (sint t < 0 \<longrightarrow> sint t \<le> sint (lifetime_cut n) \<and> sint (lifetime_cut n) \<le> 0)"
    using cut_fee_between [OF lp N(5)] .
  have res: "(0 \<le> sint (network_cut n) \<longrightarrow> 0 \<le> sint (reserveed n) \<and> sint (reserveed n) \<le> sint (network_cut n))
          \<and> (sint (network_cut n) < 0 \<longrightarrow> sint (network_cut n) \<le> sint (reserveed n) \<and> sint (reserveed n) \<le> 0)"
    using cut_fee_between [OF rp N(3)] .
  have rt: "- (2 ^ 63) \<le> sint t" "sint t < 2 ^ 63" using sint_range_64 [of t] by simp_all
  have rr: "- (2 ^ 63) \<le> sint (referral n)" "sint (referral n) < 2 ^ 63"
    using sint_range_64 [of "referral n"] by simp_all
  have "- (2 ^ 63) \<le> sint (referrer_cut r) + sint (registrar_cut r)"
       "sint (referrer_cut r) + sint (registrar_cut r) < 2 ^ 63"
    using rr R(2) by simp_all
  then obtain s1 where s1: "safe_add (referrer_cut r) (registrar_cut r) = Inr s1"
      "sint s1 = sint (referrer_cut r) + sint (registrar_cut r)"
    using safe_add_in_range by blast
  have s1v: "sint s1 = sint (referral n)" using s1(2) R(2) by simp
  have "- (2 ^ 63) \<le> sint s1 + sint (accumulated n)" "sint s1 + sint (accumulated n) < 2 ^ 63"
    using s1v N(4) N(6) nc lc res rt rr by linarith+
  then obtain s2 where s2: "safe_add s1 (accumulated n) = Inr s2"
      "sint s2 = sint s1 + sint (accumulated n)"
    using safe_add_in_range by blast
  have "- (2 ^ 63) \<le> sint s2 + sint (reserveed n)" "sint s2 + sint (reserveed n) < 2 ^ 63"
    using s2(2) s1v N(4) N(6) nc lc res rt rr by linarith+
  then obtain s3 where s3: "safe_add s2 (reserveed n) = Inr s3"
      "sint s3 = sint s2 + sint (reserveed n)"
    using safe_add_in_range by blast
  have "sint s3 + sint (lifetime_cut n) = sint t"
    using s3(2) s2(2) s1v N(4) N(6) by linarith
  moreover from this have "- (2 ^ 63) \<le> sint s3 + sint (lifetime_cut n)"
      "sint s3 + sint (lifetime_cut n) < 2 ^ 63"
    using rt by simp_all
  then obtain s4 where s4: "safe_add s3 (lifetime_cut n) = Inr s4"
      "sint s4 = sint s3 + sint (lifetime_cut n)"
    using safe_add_in_range by blast
  ultimately have "s4 = t" by (intro sint_eq_64) simp
  with s1(1) s2(1) s3(1) s4(1) show ?thesis by (simp add: closing_sum_def)
qed


lemma two_shares_le:
  fixes a p q :: int
  assumes "0 \<le> a" "0 \<le> p" "0 \<le> q" "p + q \<le> 10000"
  shows "a * p div 10000 + a * q div 10000 \<le> a"
proof -
  define u where "u = a * p"
  define v where "v = a * q"
  have "a * (p + q) \<le> a * 10000" using assms by (intro mult_left_mono) simp_all
  then have sum: "u + v \<le> a * 10000" by (simp add: u_def v_def algebra_simps)
  have "u = 10000 * (u div 10000) + u mod 10000" "v = 10000 * (v div 10000) + v mod 10000"
    by simp_all
  moreover have "0 \<le> u mod 10000" "0 \<le> v mod 10000" by simp_all
  ultimately have "u div 10000 + v div 10000 \<le> a" using sum by linarith
  then show ?thesis by (simp add: u_def v_def)
qed

lemma shares_returned:
  assumes t: "0 \<le> sint t"
    and np: "uint np \<le> 10000" and rp: "uint rp \<le> 10000" and lp: "uint lp \<le> 10000"
    and pct: "uint pct \<le> 10000" and both: "uint np + uint lp \<le> 10000"
  shows "\<exists>n r. network_shares t np rp lp = Inr n \<and> referral_shares (referral n) pct = Inr r"
proof -
  have rt: "sint t < 2 ^ 63" using sint_range_64 [of t] by simp
  obtain nc where nc: "cut_fee t np = Inr nc" "sint nc = sint t * uint np div 10000"
    using cut_fee_nonneg [OF t np] by blast
  have ncb: "0 \<le> sint nc" "sint nc \<le> sint t"
    using share_bounds [OF t _ np] by (simp_all add: nc(2))
  obtain res where res: "cut_fee nc rp = Inr res" "sint res = sint nc * uint rp div 10000"
    using cut_fee_nonneg [OF ncb(1) rp] by blast
  have resb: "0 \<le> sint res" "sint res \<le> sint nc"
    using share_bounds [OF ncb(1) _ rp] by (simp_all add: res(2))
  obtain acc where acc: "safe_sub nc res = Inr acc" "sint acc = sint nc - sint res"
    using safe_sub_in_range [of nc res] ncb resb rt by auto
  obtain bk where bk: "safe_add acc res = Inr bk" "sint bk = sint acc + sint res"
    using safe_add_in_range [of acc res] acc(2) ncb rt by auto
  have bk_nc: "bk = nc" using bk(2) acc(2) by (intro sint_eq_64) simp
  obtain lc where lc: "cut_fee t lp = Inr lc" "sint lc = sint t * uint lp div 10000"
    using cut_fee_nonneg [OF t lp] by blast
  have lcb: "0 \<le> sint lc" "sint lc \<le> sint t"
    using share_bounds [OF t _ lp] by (simp_all add: lc(2))
  have sum: "sint nc + sint lc \<le> sint t"
    using two_shares_le [OF t _ _ both] by (simp add: nc(2) lc(2))
  obtain rest where rest: "safe_sub t nc = Inr rest" "sint rest = sint t - sint nc"
    using safe_sub_in_range [of t nc] ncb rt by auto
  obtain ref where ref: "safe_sub rest lc = Inr ref" "sint ref = sint rest - sint lc"
    using safe_sub_in_range [of rest lc] rest(2) sum lcb ncb rt by auto
  have refb: "0 \<le> sint ref" "sint ref < 2 ^ 63" using ref(2) rest(2) sum lcb ncb rt by simp_all
  obtain rc where rc: "cut_fee ref pct = Inr rc" "sint rc = sint ref * uint pct div 10000"
    using cut_fee_nonneg [OF refb(1) pct] by blast
  have rcb: "0 \<le> sint rc" "sint rc \<le> sint ref"
    using share_bounds [OF refb(1) _ pct] by (simp_all add: rc(2))
  obtain gc where gc: "safe_sub ref rc = Inr gc"
    using safe_sub_in_range [of ref rc] rcb refb by auto
  let ?n = "\<lparr>network_cut = nc, reserveed = res, accumulated = acc, lifetime_cut = lc, referral = ref\<rparr>"
  have "network_shares t np rp lp = Inr ?n"
    using nc(1) ncb(2) res(1) acc(1) bk(1) bk_nc lc(1) rest(1) ref(1)
    by (simp add: network_shares_def c_assert_def word_sle_eq)
  moreover have "referral_shares (referral ?n) pct = Inr \<lparr>referrer_cut = rc, registrar_cut = gc\<rparr>"
    using rc(1) gc by (simp add: referral_shares_def)
  ultimately show ?thesis by blast
qed

text \<open>
  Claim C1. In \<open>process_fees\<close>, for every nonzero pool total and every configuration of
  the four percentages between 0 and \<open>GRAPHENE_100_PERCENT\<close>, the shares the closure
  computes satisfy \<open>referrer_cut + registrar_cut + accumulated + reserveed + lifetime_cut
  = core_fee_total\<close> exactly, with \<open>accumulated = network_cut - reserveed\<close>: the checked
  sum of the closing assertion is returned and equals the total, and so does the sum of
  the signed values. The shares are computed (no step faults) whenever the total is
  positive and the network and lifetime percentages together do not exceed
  \<open>GRAPHENE_100_PERCENT\<close>.
\<close>

theorem fee_shares_sum_to_total:
  assumes "core_fee_total \<noteq> 0"
    and "uint network_pct \<le> GRAPHENE_100_PERCENT"
    and "uint lifetime_pct \<le> GRAPHENE_100_PERCENT"
    and "uint referrer_pct \<le> GRAPHENE_100_PERCENT"
    and "uint reserve_pct \<le> GRAPHENE_100_PERCENT"
  shows "(\<forall>n r. network_shares core_fee_total network_pct reserve_pct lifetime_pct = Inr n
               \<and> referral_shares (referral n) referrer_pct = Inr r
            \<longrightarrow> sint (accumulated n) = sint (network_cut n) - sint (reserveed n)
                \<and> closing_sum n r = Inr core_fee_total
                \<and> sint (referrer_cut r) + sint (registrar_cut r) + sint (accumulated n)
                    + sint (reserveed n) + sint (lifetime_cut n) = sint core_fee_total)
       \<and> (0 <s core_fee_total \<and> uint network_pct + uint lifetime_pct \<le> GRAPHENE_100_PERCENT
            \<longrightarrow> (\<exists>n r. network_shares core_fee_total network_pct reserve_pct lifetime_pct = Inr n
                       \<and> referral_shares (referral n) referrer_pct = Inr r))"
proof (intro conjI allI impI)
  fix n r
  assume nr: "network_shares core_fee_total network_pct reserve_pct lifetime_pct = Inr n
              \<and> referral_shares (referral n) referrer_pct = Inr r"
  note N = network_shares_Inr [OF nr [THEN conjunct1]]
  note R = referral_shares_Inr [OF nr [THEN conjunct2]]
  show "sint (accumulated n) = sint (network_cut n) - sint (reserveed n)" by (rule N(4))
  have pcts: "uint network_pct \<le> 10000" "uint reserve_pct \<le> 10000" "uint lifetime_pct \<le> 10000"
    using assms(2,3,5) by (simp_all add: GRAPHENE_100_PERCENT_def)
  show "closing_sum n r = Inr core_fee_total"
    using pcts nr [THEN conjunct1] nr [THEN conjunct2] by (rule closing_sum_total)
  show "sint (referrer_cut r) + sint (registrar_cut r) + sint (accumulated n)
          + sint (reserveed n) + sint (lifetime_cut n) = sint core_fee_total"
    using N(4) N(6) R(2) by simp
next
  assume "0 <s core_fee_total \<and> uint network_pct + uint lifetime_pct \<le> GRAPHENE_100_PERCENT"
  then have "0 \<le> sint core_fee_total" "uint network_pct + uint lifetime_pct \<le> 10000"
    by (simp_all add: word_sless_alt GRAPHENE_100_PERCENT_def)
  then show "\<exists>n r. network_shares core_fee_total network_pct reserve_pct lifetime_pct = Inr n
                  \<and> referral_shares (referral n) referrer_pct = Inr r"
    using assms(2-5) by (intro shares_returned) (simp_all add: GRAPHENE_100_PERCENT_def)
qed

theorem fee_shares_sum_to_total_witness:
  "(1000 :: 64 word) \<noteq> 0
   \<and> uint (2000 :: 16 word) \<le> GRAPHENE_100_PERCENT \<and> uint (3000 :: 16 word) \<le> GRAPHENE_100_PERCENT
   \<and> uint (5000 :: 16 word) \<le> GRAPHENE_100_PERCENT
   \<and> 0 <s (1000 :: 64 word) \<and> uint (2000 :: 16 word) + uint (3000 :: 16 word) \<le> GRAPHENE_100_PERCENT
   \<and> network_shares 1000 2000 5000 3000
       = Inr \<lparr>network_cut = 200, reserveed = 100, accumulated = 100, lifetime_cut = 300, referral = 500\<rparr>
   \<and> referral_shares 500 5000 = Inr \<lparr>referrer_cut = 250, registrar_cut = 250\<rparr>
   \<and> closing_sum
         \<lparr>network_cut = 200, reserveed = 100, accumulated = 100, lifetime_cut = 300, referral = 500\<rparr>
         \<lparr>referrer_cut = 250, registrar_cut = 250\<rparr> = Inr 1000"
  using fee_shares_sum_to_total
    [where core_fee_total = 1000 and network_pct = 2000 and reserve_pct = 5000
       and lifetime_pct = 3000 and referrer_pct = 5000]
  by (simp add: GRAPHENE_100_PERCENT_def network_shares_def referral_shares_def closing_sum_def
        cut_fee_def to_uint64_def safe_add_def safe_sub_def c_assert_def word_sle_eq word_sless_alt)

section \<open>Fee distribution: referrer demotion and the pending pools\<close>

lemma pay_out_fees_Inr:
  assumes "pay_out_fees is_basic d t rv = Inr d'"
  shows "\<exists>n r fees.
           network_shares t (network_fee_percentage (account d)) (reserve_percent_of_fee d)
             (lifetime_referrer_fee_percentage (account d)) = Inr n
         \<and> referral_shares (referral n) (referrer_rewards_percentage (account d)) = Inr r
         \<and> safe_add (accumulated_fees d) (network_cut n) = Inr fees
         \<and> d' = d\<lparr>account := (account d)\<lparr>referrer :=
                      (if is_basic (referrer (account d)) then lifetime_referrer (account d)
                       else referrer (account d))\<rparr>,
                   accumulated_fees := fees,
                   cashback_calls := cashback_calls d @
                     [(lifetime_referrer (account d), lifetime_cut n, rv),
                      (if is_basic (referrer (account d)) then lifetime_referrer (account d)
                       else referrer (account d), referrer_cut r, rv),
                      (registrar (account d), registrar_cut r, rv)]\<rparr>"
proof (cases "is_basic (referrer (account d))")
  case True
  with assms show ?thesis
    unfolding pay_out_fees_def Let_def bind_eq_Inr c_assert_Inr deposit_cashback_def
    by (simp add: bind_eq_Inr) blast
next
  case False
  with assms show ?thesis
    unfolding pay_out_fees_def Let_def bind_eq_Inr c_assert_Inr deposit_cashback_def
    by (simp add: bind_eq_Inr) blast
qed


lemma pay_out_fees_cong:
  assumes "other (referrer (account d)) = is_basic (referrer (account d))"
  shows "pay_out_fees other d t rv = pay_out_fees is_basic d t rv"
  using assms by (simp add: pay_out_fees_def)

lemma process_fees_Inr:
  assumes "0 <s pending_fees (statistics d) \<or> 0 <s pending_vested_fees (statistics d)"
    and "process_fees is_basic d = Inr d2"
  shows "\<exists>e1 e2 both paid.
           pay_out_fees is_basic d (pending_fees (statistics d)) True = Inr e1
         \<and> pay_out_fees is_basic e1 (pending_vested_fees (statistics e1)) False = Inr e2
         \<and> safe_add (pending_fees (statistics e2)) (pending_vested_fees (statistics e2)) = Inr both
         \<and> safe_add (lifetime_fees_paid (statistics e2)) both = Inr paid
         \<and> d2 = e2\<lparr>statistics := (statistics e2)
                   \<lparr>lifetime_fees_paid := paid, pending_fees := 0, pending_vested_fees := 0\<rparr>\<rparr>"
proof -
  have "bind (pay_out_fees is_basic d (pending_fees (statistics d)) True) (\<lambda>d1.
        bind (pay_out_fees is_basic d1 (pending_vested_fees (statistics d1)) False) (\<lambda>d2.
        bind (safe_add (pending_fees (statistics d2)) (pending_vested_fees (statistics d2))) (\<lambda>both.
        bind (safe_add (lifetime_fees_paid (statistics d2)) both) (\<lambda>paid.
          Inr (d2\<lparr>statistics := (statistics d2)
                 \<lparr>lifetime_fees_paid := paid, pending_fees := 0, pending_vested_fees := 0\<rparr>\<rparr>))))) = Inr d2"
    using assms by (simp add: process_fees_def)
  then show ?thesis unfolding bind_eq_Inr by blast
qed

text \<open>
  Claim C7. In every run of the per-pool closure of \<open>process_fees\<close>: if the referrer
  \<open>is_basic_account\<close> at the head block time, the account's referrer has been rewritten
  to its lifetime referrer in the resulting database, the three deposits go, in order, to
  the lifetime referrer, to the rewritten referrer and to the registrar, with the shares
  computed from the account's percentages, and the registrar is left as it was. The only
  account whose status is consulted is the referrer: any other predicate that calls the
  referrer basic gives the same result, whatever it says of the registrar. For
  \<open>process_fees\<close> as a whole, when its guard passes and it returns, the referrer ends as
  the lifetime referrer and the six deposits of the two pools go to the lifetime
  referrer, the lifetime referrer (as referrer) and the registrar, twice.
\<close>

theorem referrer_demoted_before_payout:
  assumes "is_basic (referrer (account d))"
    and "pay_out_fees is_basic d core_fee_total require_vesting = Inr d1"
  shows "referrer (account d1) = lifetime_referrer (account d)
       \<and> registrar (account d1) = registrar (account d)
       \<and> (\<exists>n r. network_shares core_fee_total (network_fee_percentage (account d))
                   (reserve_percent_of_fee d) (lifetime_referrer_fee_percentage (account d)) = Inr n
               \<and> referral_shares (referral n) (referrer_rewards_percentage (account d)) = Inr r
               \<and> cashback_calls d1 = cashback_calls d @
                    [(lifetime_referrer (account d), lifetime_cut n, require_vesting),
                     (referrer (account d1), referrer_cut r, require_vesting),
                     (registrar (account d), registrar_cut r, require_vesting)])
       \<and> (\<forall>other. other (referrer (account d))
              \<longrightarrow> pay_out_fees other d core_fee_total require_vesting = Inr d1)
       \<and> (\<forall>d2. (0 <s pending_fees (statistics d) \<or> 0 <s pending_vested_fees (statistics d))
                \<and> process_fees is_basic d = Inr d2
              \<longrightarrow> referrer (account d2) = lifetime_referrer (account d)
                  \<and> map fst (cashback_calls d2) = map fst (cashback_calls d) @
                       [lifetime_referrer (account d), lifetime_referrer (account d), registrar (account d),
                        lifetime_referrer (account d), lifetime_referrer (account d), registrar (account d)])"
proof (intro conjI allI impI)
  obtain n r fees where n: "network_shares core_fee_total (network_fee_percentage (account d))
        (reserve_percent_of_fee d) (lifetime_referrer_fee_percentage (account d)) = Inr n"
    and r: "referral_shares (referral n) (referrer_rewards_percentage (account d)) = Inr r"
    and d1: "d1 = d\<lparr>account := (account d)\<lparr>referrer := lifetime_referrer (account d)\<rparr>,
                   accumulated_fees := fees,
                   cashback_calls := cashback_calls d @
                     [(lifetime_referrer (account d), lifetime_cut n, require_vesting),
                      (lifetime_referrer (account d), referrer_cut r, require_vesting),
                      (registrar (account d), registrar_cut r, require_vesting)]\<rparr>"
    using pay_out_fees_Inr [OF assms(2)] assms(1) by (elim exE conjE) simp
  show "referrer (account d1) = lifetime_referrer (account d)" by (simp add: d1)
  show "registrar (account d1) = registrar (account d)" by (simp add: d1)
  show "\<exists>n r. network_shares core_fee_total (network_fee_percentage (account d))
                   (reserve_percent_of_fee d) (lifetime_referrer_fee_percentage (account d)) = Inr n
               \<and> referral_shares (referral n) (referrer_rewards_percentage (account d)) = Inr r
               \<and> cashback_calls d1 = cashback_calls d @
                    [(lifetime_referrer (account d), lifetime_cut n, require_vesting),
                     (referrer (account d1), referrer_cut r, require_vesting),
                     (registrar (account d), registrar_cut r, require_vesting)]"
    using n r by (intro exI [of _ n] exI [of _ r]) (simp add: d1)
next
  fix other :: "account_uid_type \<Rightarrow> bool"
  assume "other (referrer (account d))"
  then have "pay_out_fees other d core_fee_total require_vesting
               = pay_out_fees is_basic d core_fee_total require_vesting"
    using assms(1) by (intro pay_out_fees_cong) simp
  then show "pay_out_fees other d core_fee_total require_vesting = Inr d1"
    using assms(2) by simp
next
  fix d2
  assume run: "(0 <s pending_fees (statistics d) \<or> 0 <s pending_vested_fees (statistics d))
               \<and> process_fees is_basic d = Inr d2"
  then obtain e1 e2 where e1: "pay_out_fees is_basic d (pending_fees (statistics d)) True = Inr e1"
    and e2: "pay_out_fees is_basic e1 (pending_vested_fees (statistics e1)) False = Inr e2"
    and acct: "account d2 = account e2" and calls: "cashback_calls d2 = cashback_calls e2"
    using process_fees_Inr [of d is_basic d2] by auto
  from pay_out_fees_Inr [OF e1] obtain n1 :: network_split and r1 :: referral_split and f1 where
    "e1 = d\<lparr>account := (account d)\<lparr>referrer :=
                      (if is_basic (referrer (account d)) then lifetime_referrer (account d)
                       else referrer (account d))\<rparr>,
                   accumulated_fees := f1,
                   cashback_calls := cashback_calls d @
                     [(lifetime_referrer (account d), lifetime_cut n1, True),
                      (if is_basic (referrer (account d)) then lifetime_referrer (account d)
                       else referrer (account d), referrer_cut r1, True),
                      (registrar (account d), registrar_cut r1, True)]\<rparr>"
    by blast
  then have E1: "e1 = d\<lparr>account := (account d)\<lparr>referrer := lifetime_referrer (account d)\<rparr>,
                   accumulated_fees := f1,
                   cashback_calls := cashback_calls d @
                     [(lifetime_referrer (account d), lifetime_cut n1, True),
                      (lifetime_referrer (account d), referrer_cut r1, True),
                      (registrar (account d), registrar_cut r1, True)]\<rparr>"
    using assms(1) by simp
  obtain n2 :: network_split and r2 :: referral_split and f2 where E2: "e2 = e1\<lparr>account := (account e1)\<lparr>referrer :=
                      (if is_basic (referrer (account e1)) then lifetime_referrer (account e1)
                       else referrer (account e1))\<rparr>,
                   accumulated_fees := f2,
                   cashback_calls := cashback_calls e1 @
                     [(lifetime_referrer (account e1), lifetime_cut n2, False),
                      (if is_basic (referrer (account e1)) then lifetime_referrer (account e1)
                       else referrer (account e1), referrer_cut r2, False),
                      (registrar (account e1), registrar_cut r2, False)]\<rparr>"
    using pay_out_fees_Inr [OF e2] by blast
  show "referrer (account d2) = lifetime_referrer (account d)"
    by (simp add: acct E2 E1)
  show "map fst (cashback_calls d2) = map fst (cashback_calls d) @
          [lifetime_referrer (account d), lifetime_referrer (account d), registrar (account d),
           lifetime_referrer (account d), lifetime_referrer (account d), registrar (account d)]"
    by (simp add: calls E2 E1)
qed

lemmas eval_fee_defs =
  GRAPHENE_100_PERCENT_def network_shares_def referral_shares_def closing_sum_def
  cut_fee_def to_uint64_def safe_add_def safe_sub_def c_assert_def word_sle_eq word_sless_alt
  pay_out_fees_def process_fees_def deposit_cashback_def Let_def
  example_database_def example_account_def fresh_statistics_def no_authority_def

theorem referrer_demoted_before_payout_witness:
  "(\<lambda>u. u = 2) (referrer (account (example_database 1000 0)))
   \<and> pay_out_fees (\<lambda>u. u = 2) (example_database 1000 0) 1000 True
       = Inr ((example_database 1000 0)
               \<lparr>account := example_account\<lparr>referrer := 3\<rparr>, accumulated_fees := 200,
                cashback_calls := [(3, 300, True), (3, 250, True), (1, 250, True)]\<rparr>)
   \<and> lifetime_referrer (account (example_database 1000 0)) = 3
   \<and> registrar (account (example_database 1000 0)) = 1
   \<and> 0 <s pending_fees (statistics (example_database 1000 0))
   \<and> (\<exists>d2. process_fees (\<lambda>u. u = 2) (example_database 1000 0) = Inr d2
          \<and> referrer (account d2) = 3
          \<and> map fst (cashback_calls d2) = [3, 3, 1, 3, 3, 1])"
  using referrer_demoted_before_payout
    [where is_basic = "\<lambda>u. u = 2" and d = "example_database 1000 0" and core_fee_total = 1000
       and require_vesting = True
       and ?d1.0 = "(example_database 1000 0)
               \<lparr>account := example_account\<lparr>referrer := 3\<rparr>, accumulated_fees := 200,
                cashback_calls := [(3, 300, True), (3, 250, True), (1, 250, True)]\<rparr>"]
  by (simp add: eval_fee_defs)


lemma pay_out_fees_statistics:
  assumes "pay_out_fees is_basic d t rv = Inr d1"
  shows "statistics d1 = statistics d"
proof -
  from pay_out_fees_Inr [OF assms] obtain n :: network_split and r :: referral_split and fees where
    "d1 = d\<lparr>account := (account d)\<lparr>referrer :=
                      (if is_basic (referrer (account d)) then lifetime_referrer (account d)
                       else referrer (account d))\<rparr>,
                   accumulated_fees := fees,
                   cashback_calls := cashback_calls d @
                     [(lifetime_referrer (account d), lifetime_cut n, rv),
                      (if is_basic (referrer (account d)) then lifetime_referrer (account d)
                       else referrer (account d), referrer_cut r, rv),
                      (registrar (account d), registrar_cut r, rv)]\<rparr>"
    by blast
  then show ?thesis by simp
qed

lemma process_fees_by_guard:
  "(\<not> (0 <s pending_fees (statistics d) \<or> 0 <s pending_vested_fees (statistics d))
      \<longrightarrow> process_fees is_basic d = Inr d)
   \<and> ((0 <s pending_fees (statistics d) \<or> 0 <s pending_vested_fees (statistics d))
        \<and> process_fees is_basic d = Inr d2
      \<longrightarrow> sint (lifetime_fees_paid (statistics d2))
            = sint (lifetime_fees_paid (statistics d))
              + (sint (pending_fees (statistics d)) + sint (pending_vested_fees (statistics d)))
          \<and> pending_fees (statistics d2) = 0
          \<and> pending_vested_fees (statistics d2) = 0
          \<and> process_fees is_basic d2 = Inr d2)"
proof (intro conjI impI)
  assume "\<not> (0 <s pending_fees (statistics d) \<or> 0 <s pending_vested_fees (statistics d))"
  then show "process_fees is_basic d = Inr d" by (simp add: process_fees_def)
next
  assume run: "(0 <s pending_fees (statistics d) \<or> 0 <s pending_vested_fees (statistics d))
               \<and> process_fees is_basic d = Inr d2"
  from process_fees_Inr [OF run [THEN conjunct1] run [THEN conjunct2]]
  obtain e1 e2 both paid where
      e1: "pay_out_fees is_basic d (pending_fees (statistics d)) True = Inr e1"
    and e2: "pay_out_fees is_basic e1 (pending_vested_fees (statistics e1)) False = Inr e2"
    and both: "safe_add (pending_fees (statistics e2)) (pending_vested_fees (statistics e2)) = Inr both"
    and paid: "safe_add (lifetime_fees_paid (statistics e2)) both = Inr paid"
    and d2: "d2 = e2\<lparr>statistics := (statistics e2)
                   \<lparr>lifetime_fees_paid := paid, pending_fees := 0, pending_vested_fees := 0\<rparr>\<rparr>"
    by blast
  have st: "statistics e2 = statistics d"
    using pay_out_fees_statistics [OF e1] pay_out_fees_statistics [OF e2] by simp
  show "sint (lifetime_fees_paid (statistics d2))
            = sint (lifetime_fees_paid (statistics d))
              + (sint (pending_fees (statistics d)) + sint (pending_vested_fees (statistics d)))"
    using safe_add_sint [OF both] safe_add_sint [OF paid] by (simp add: d2 st)
  show zero1: "pending_fees (statistics d2) = 0" by (simp add: d2)
  show zero2: "pending_vested_fees (statistics d2) = 0" by (simp add: d2)
  show "process_fees is_basic d2 = Inr d2" using zero1 zero2 by (simp add: process_fees_def)
qed

lemma positive_iff_nonzero:
  assumes "0 \<le>s (x :: 64 word)"
  shows "0 <s x \<longleftrightarrow> x \<noteq> 0"
proof -
  have "sint x = 0 \<longleftrightarrow> x = 0" by (rule signed_eq_0_iff)
  moreover have "0 \<le> sint x" using assms by (simp add: word_sle_eq)
  ultimately show ?thesis by (auto simp add: word_sless_alt)
qed

text \<open>
  Claim C6. On pools that are not negative (the pools only ever receive fees, which the
  specification takes to be non-negative amounts): \<open>process_fees\<close> leaves the database as
  it is when both \<open>pending_fees\<close> and \<open>pending_vested_fees\<close> are zero; when at least one
  is nonzero and it returns, \<open>lifetime_fees_paid\<close> is its previous value plus
  \<open>pending_fees + pending_vested_fees\<close>, both pools are zero, and an immediately repeated
  call changes nothing.
\<close>

theorem process_fees_consumes_pending:
  assumes "0 \<le>s pending_fees (statistics d)" and "0 \<le>s pending_vested_fees (statistics d)"
  shows "(pending_fees (statistics d) = 0 \<and> pending_vested_fees (statistics d) = 0
            \<longrightarrow> process_fees is_basic d = Inr d)
       \<and> ((pending_fees (statistics d) \<noteq> 0 \<or> pending_vested_fees (statistics d) \<noteq> 0)
            \<and> process_fees is_basic d = Inr d2
          \<longrightarrow> sint (lifetime_fees_paid (statistics d2))
                = sint (lifetime_fees_paid (statistics d))
                  + (sint (pending_fees (statistics d)) + sint (pending_vested_fees (statistics d)))
              \<and> pending_fees (statistics d2) = 0
              \<and> pending_vested_fees (statistics d2) = 0
              \<and> process_fees is_basic d2 = Inr d2)"
proof -
  have guard: "(0 <s pending_fees (statistics d) \<or> 0 <s pending_vested_fees (statistics d))
                \<longleftrightarrow> (pending_fees (statistics d) \<noteq> 0 \<or> pending_vested_fees (statistics d) \<noteq> 0)"
    by (simp only: positive_iff_nonzero [OF assms(1)] positive_iff_nonzero [OF assms(2)])
  show ?thesis
    using process_fees_by_guard [of d is_basic d2] unfolding guard by blast
qed

theorem process_fees_consumes_pending_witness:
  "0 \<le>s pending_fees (statistics (example_database 0 0))
   \<and> 0 \<le>s pending_vested_fees (statistics (example_database 0 0))
   \<and> pending_fees (statistics (example_database 0 0)) = 0
   \<and> pending_vested_fees (statistics (example_database 0 0)) = 0
   \<and> process_fees (\<lambda>u. u = 2) (example_database 0 0) = Inr (example_database 0 0)
   \<and> 0 \<le>s pending_fees (statistics (example_database 1000 50))
   \<and> 0 \<le>s pending_vested_fees (statistics (example_database 1000 50))
   \<and> pending_fees (statistics (example_database 1000 50)) \<noteq> 0
   \<and> process_fees (\<lambda>u. u = 2) (example_database 1000 50)
       = Inr ((example_database 0 0)
               \<lparr>account := example_account\<lparr>referrer := 3\<rparr>,
                statistics := fresh_statistics\<lparr>lifetime_fees_paid := 1050\<rparr>,
                accumulated_fees := 210,
                cashback_calls := [(3, 300, True), (3, 250, True), (1, 250, True),
                                   (3, 15, False), (3, 12, False), (1, 13, False)]\<rparr>)
   \<and> sint (1050 :: 64 word) = sint (0 :: 64 word) + (sint (1000 :: 64 word) + sint (50 :: 64 word))"
  using process_fees_consumes_pending
      [where is_basic = "\<lambda>u. u = 2" and d = "example_database 0 0"]
    process_fees_consumes_pending
      [where is_basic = "\<lambda>u. u = 2" and d = "example_database 1000 50"
         and ?d2.0 = "(example_database 0 0)
               \<lparr>account := example_account\<lparr>referrer := 3\<rparr>,
                statistics := fresh_statistics\<lparr>lifetime_fees_paid := 1050\<rparr>,
                accumulated_fees := 210,
                cashback_calls := [(3, 300, True), (3, 250, True), (1, 250, True),
                                   (3, 15, False), (3, 12, False), (1, 13, False)]\<rparr>"]
  by (simp add: eval_fee_defs)

section \<open>Stake-time accumulator: one update\<close>

lemma now_rounded_idem: "now_rounded (now_rounded now) = now_rounded now"
proof -
  have d: "uint (now div 60) = uint now div 60" by (simp add: uint_div)
  have "uint now div 60 * 60 \<le> uint now" by simp
  moreover have "uint now < 2 ^ 32" using uint_bounded [of now] by simp
  ultimately have "uint (now div 60) * uint (60 :: 32 word) < 2 ^ LENGTH(32)" by (simp add: d)
  then have m: "uint (now div 60 * 60) = uint (now div 60) * uint (60 :: 32 word)"
    by (simp only: uint_mult_lem)
  have "uint ((now div 60 * 60) div 60) = uint (now div 60)"
    by (simp add: uint_div m)
  then have "(now div 60 * 60) div 60 = now div 60" by (rule word_uint_eqI)
  then show ?thesis by (simp add: now_rounded_def)
qed

lemma seconds_between_later:
  assumes "\<not> t \<le> m"
  shows "uint (seconds_between t m) = uint t - uint m"
    and "0 < uint (seconds_between t m)"
    and "uint (seconds_between t m) < 2 ^ 32"
    and "sint (seconds_between t m) = uint t - uint m"
proof -
  have lt: "uint m < uint t" using assms by (simp add: word_le_def)
  have bt: "uint t < 2 ^ 32" using uint_bounded [of t] by simp
  define um where "um = uint m"
  have bm: "0 \<le> um" by (simp add: um_def)
  have "0 \<le> uint t - um" "uint t - um < 2 ^ 64" "uint t - um < 2 ^ 63" "uint t - um < 2 ^ 32"
    using lt bt bm by (simp_all add: um_def [symmetric])
  then have r: "0 \<le> uint t - uint m" "uint t - uint m < 2 ^ 64" "uint t - uint m < 2 ^ 63"
      "uint t - uint m < 2 ^ 32"
    by (simp_all add: um_def)
  have "uint (seconds_between t m) = (uint t - uint m) mod 2 ^ LENGTH(64)"
    unfolding seconds_between_def by (rule uint_word_of_int)
  also have "\<dots> = uint t - uint m" using r(1,2) by (intro mod_pos_pos_trivial) simp_all
  finally show u: "uint (seconds_between t m) = uint t - uint m" .
  show "0 < uint (seconds_between t m)" using lt by (simp add: u)
  show "uint (seconds_between t m) < 2 ^ 32" using r(4) by (simp add: u)
  have "- (2 ^ 63) \<le> uint t - uint m" using r(1) by simp
  then have "signed_take_bit 63 (uint t - uint m) = uint t - uint m"
    using r(3) by (rule signed_take_bit_int_eq_self)
  moreover have "sint (seconds_between t m) = signed_take_bit (LENGTH(64) - 1) (uint t - uint m)"
    unfolding seconds_between_def by (rule sint_sbintrunc')
  ultimately show "sint (seconds_between t m) = uint t - uint m" by simp
qed

lemma uint_mult_128:
  assumes "uint (x :: 128 word) < 2 ^ 64" "uint (y :: 128 word) < 2 ^ 64"
  shows "uint (x * y) = uint x * uint y"
proof -
  have "uint x * uint y \<le> 2 ^ 64 * 2 ^ 64"
    using assms by (intro mult_mono) simp_all
  moreover have "uint x * uint y \<noteq> 2 ^ 64 * 2 ^ 64"
  proof
    assume e: "uint x * uint y = 2 ^ 64 * 2 ^ 64"
    have "uint x * uint y \<le> (2 ^ 64 - 1) * 2 ^ 64"
      using assms by (intro mult_mono) simp_all
    with e show False by simp
  qed
  ultimately have "uint x * uint y < 2 ^ LENGTH(128)" by simp
  then show ?thesis by (simp only: uint_mult_lem)
qed

lemma uint_scast_mult_ucast:
  assumes "0 \<le> sint (a :: 64 word)"
  shows "uint ((scast a :: 128 word) * ucast (k :: 64 word)) = sint a * uint k"
proof -
  have "uint (scast a :: 128 word) < 2 ^ 64"
    using assms sint_range_64 [of a] by (simp add: uint_scast_128_nonneg)
  moreover have "uint (ucast k :: 128 word) < 2 ^ 64"
    using uint_bounded [of k] by (simp add: uint_ucast_64_128)
  ultimately have "uint ((scast a :: 128 word) * ucast k) = uint (scast a :: 128 word) * uint (ucast k :: 128 word)"
    by (rule uint_mult_128)
  then show ?thesis using assms by (simp add: uint_scast_128_nonneg uint_ucast_64_128)
qed

lemma uint_scast_mult_scast:
  assumes "0 \<le> sint (a :: 64 word)" "0 \<le> sint (k :: 64 word)"
  shows "uint ((scast a :: 128 word) * scast k) = sint a * sint k"
proof -
  have "uint (scast a :: 128 word) < 2 ^ 64"
    using assms sint_range_64 [of a] by (simp add: uint_scast_128_nonneg)
  moreover have "uint (scast k :: 128 word) < 2 ^ 64"
    using assms sint_range_64 [of k] by (simp add: uint_scast_128_nonneg)
  ultimately have "uint ((scast a :: 128 word) * scast k) = uint (scast a :: 128 word) * uint (scast k :: 128 word)"
    by (rule uint_mult_128)
  then show ?thesis using assms by (simp add: uint_scast_128_nonneg)
qed

lemma blend_bounds:
  fixes a b w d lo hi :: int
  assumes d: "0 \<le> d" "d < w" and lo: "lo \<le> a" "lo \<le> b" and hi: "a \<le> hi" "b \<le> hi"
  shows "lo \<le> (a * (w - d) + b * d) div w" and "(a * (w - d) + b * d) div w \<le> hi"
proof -
  have w: "0 < w" using d by simp
  have "lo * (w - d) \<le> a * (w - d)" "lo * d \<le> b * d"
    using d lo by (simp_all add: mult_right_mono)
  then have "lo * w \<le> a * (w - d) + b * d" by (simp add: algebra_simps)
  then have "lo * w div w \<le> (a * (w - d) + b * d) div w" using w by (rule zdiv_mono1)
  then show "lo \<le> (a * (w - d) + b * d) div w" using w by simp
  have "a * (w - d) \<le> hi * (w - d)" "b * d \<le> hi * d"
    using d hi by (simp_all add: mult_right_mono)
  then have "a * (w - d) + b * d \<le> hi * w" by (simp add: algebra_simps)
  then have "(a * (w - d) + b * d) div w \<le> hi * w div w" using w by (rule zdiv_mono1)
  then show "(a * (w - d) + b * d) div w \<le> hi" using w by simp
qed


lemma average_step:
  assumes b0: "0 \<le> sint b" and a0: "0 \<le> sint avg"
  shows "\<exists>a. (if now_r \<le> prev then Inr avg
              else
                let delta_seconds = seconds_between now_r prev in
                if w \<le> delta_seconds then Inr b
                else
                  let old_seconds = w - delta_seconds;
                      old_coin_seconds = (scast avg :: uint128_t) * ucast old_seconds;
                      new_coin_seconds = (scast b :: uint128_t) * ucast delta_seconds;
                      max_coin_seconds = old_coin_seconds + new_coin_seconds
                  in to_uint64 (max_coin_seconds div ucast w)) = Inr a
           \<and> min (sint avg) (sint b) \<le> sint a \<and> sint a \<le> max (sint avg) (sint b)"
proof (cases "now_r \<le> prev")
  case True
  then show ?thesis by simp
next
  case later: False
  let ?d = "seconds_between now_r prev"
  note D = seconds_between_later [OF later]
  show ?thesis
  proof (cases "w \<le> ?d")
    case True
    then show ?thesis using later by simp
  next
    case False
    then have dw: "uint ?d < uint w" by (simp add: word_le_def)
    then have "uint ?d \<le> uint w" by simp
    then have old: "uint (w - ?d) = uint w - uint ?d" by (rule iffD1 [OF uint_sub_lem])
    let ?old = "(scast avg :: uint128_t) * ucast (w - ?d)"
    let ?new = "(scast b :: uint128_t) * ucast ?d"
    have uo: "uint ?old = sint avg * (uint w - uint ?d)"
      using uint_scast_mult_ucast [OF a0, of "w - ?d"] old by simp
    have un: "uint ?new = sint b * uint ?d"
      using uint_scast_mult_ucast [OF b0, of ?d] by simp
    define hi where "hi = max (sint avg) (sint b)"
    define lo where "lo = min (sint avg) (sint b)"
    have hi63: "hi < 2 ^ 63" using sint_range_64 [of avg] sint_range_64 [of b] by (simp add: hi_def)
    have lo0: "0 \<le> lo" using a0 b0 by (simp add: lo_def)
    have w64: "uint w < 2 ^ 64" using uint_bounded [of w] by simp
    have d0: "0 \<le> uint ?d" by simp
    have wpos: "0 < uint w" using dw d0 by linarith
    have "sint avg * (uint w - uint ?d) \<le> hi * (uint w - uint ?d)" "sint b * uint ?d \<le> hi * uint ?d"
      using dw d0 by (simp_all add: mult_right_mono hi_def)
    then have "sint avg * (uint w - uint ?d) + sint b * uint ?d \<le> hi * uint w"
      by (simp add: algebra_simps)
    also have "hi * uint w \<le> 2 ^ 63 * 2 ^ 64"
      using hi63 w64 wpos by (intro mult_mono) simp_all
    finally have "uint ?old + uint ?new < 2 ^ LENGTH(128)" by (simp add: uo un)
    then have "uint (?old + ?new) = uint ?old + uint ?new" by (simp only: uint_add_lem)
    then have sum: "uint (?old + ?new) = sint avg * (uint w - uint ?d) + sint b * uint ?d"
      by (simp only: uo un)
    let ?q = "(?old + ?new) div ucast w"
    have q: "uint ?q = (sint avg * (uint w - uint ?d) + sint b * uint ?d) div uint w"
      by (simp only: uint_div sum uint_ucast_64_128)
    have bounds: "lo \<le> uint ?q" "uint ?q \<le> hi"
      unfolding q using blend_bounds [OF d0 dw, of lo "sint avg" "sint b" hi]
      by (simp_all add: lo_def hi_def)
    then have q63: "uint ?q < 2 ^ 63" using hi63 by simp
    then have "uint ?q < 2 ^ 64" by simp
    then have "to_uint64 ?q = Inr (ucast ?q)" by (rule to_uint64_Inr)
    moreover have "sint (ucast ?q :: 64 word) = uint ?q" using q63 by (rule sint_ucast_128_64)
    ultimately show ?thesis
      using later False bounds by (simp add: Let_def lo_def hi_def)
  qed
qed


lemma compute_now_rounded:
  "compute_coin_seconds_earned s w (now_rounded now) = compute_coin_seconds_earned s w now"
  by (simp add: compute_coin_seconds_earned_def now_rounded_idem)

lemma compute_within_bound:
  assumes "compute_coin_seconds_earned s w now = Inr (e, a)"
  shows "e \<le> (scast a :: uint128_t) * ucast w"
  using assms unfolding compute_coin_seconds_earned_def Let_def bind_eq_Inr
  by (auto split: if_splits)

lemma update_cases:
  "update_coin_seconds_earned s w now =
     (if now_rounded now \<le> coin_seconds_earned_last_update s
         \<and> now_rounded now \<le> average_coins_last_update s
      then Inr s
      else case compute_coin_seconds_earned s w now of
             Inl x \<Rightarrow> Inl x
           | Inr (e, a) \<Rightarrow>
               Inr (s\<lparr>coin_seconds_earned := e,
                      coin_seconds_earned_last_update := now_rounded now,
                      average_coins := a,
                      average_coins_last_update := now_rounded now\<rparr>))"
  by (simp add: update_coin_seconds_earned_def Let_def compute_now_rounded bind_def
        split: sum.splits prod.splits)

lemma compute_returns:
  assumes eb: "effective_balance s = Inr b"
    and b0: "0 \<le> sint b" and a0: "0 \<le> sint (average_coins s)"
  shows "\<exists>e a. compute_coin_seconds_earned s w now = Inr (e, a)
             \<and> min (sint (average_coins s)) (sint b) \<le> sint a
             \<and> sint a \<le> max (sint (average_coins s)) (sint b)
             \<and> e = (let max_coin_seconds = (scast a :: uint128_t) * ucast w;
                         ne = (if now_rounded now \<le> coin_seconds_earned_last_update s
                               then coin_seconds_earned s
                               else coin_seconds_earned s
                                    + (scast b :: uint128_t)
                                      * scast (seconds_between (now_rounded now)
                                                 (coin_seconds_earned_last_update s)))
                     in if max_coin_seconds < ne then max_coin_seconds else ne)"
proof -
  obtain a where a: "(if now_rounded now \<le> average_coins_last_update s then Inr (average_coins s)
              else
                let delta_seconds = seconds_between (now_rounded now) (average_coins_last_update s) in
                if w \<le> delta_seconds then Inr b
                else
                  let old_seconds = w - delta_seconds;
                      old_coin_seconds = (scast (average_coins s) :: uint128_t) * ucast old_seconds;
                      new_coin_seconds = (scast b :: uint128_t) * ucast delta_seconds;
                      max_coin_seconds = old_coin_seconds + new_coin_seconds
                  in to_uint64 (max_coin_seconds div ucast w)) = Inr a"
    and ab: "min (sint (average_coins s)) (sint b) \<le> sint a"
            "sint a \<le> max (sint (average_coins s)) (sint b)"
    using average_step [OF b0 a0, of "now_rounded now" "average_coins_last_update s" w] by blast
  have "compute_coin_seconds_earned s w now =
          Inr (let max_coin_seconds = (scast a :: uint128_t) * ucast w;
                   ne = (if now_rounded now \<le> coin_seconds_earned_last_update s
                         then coin_seconds_earned s
                         else coin_seconds_earned s
                              + (scast b :: uint128_t)
                                * scast (seconds_between (now_rounded now)
                                           (coin_seconds_earned_last_update s)))
               in if max_coin_seconds < ne then max_coin_seconds else ne, a)"
    unfolding compute_coin_seconds_earned_def Let_def eb bind_Inr a [unfolded Let_def]
    by (rule refl)
  with ab show ?thesis by blast
qed

lemma update_step:
  assumes eb: "effective_balance s = Inr b"
    and a0: "0 \<le> sint (average_coins s)" and ab: "sint (average_coins s) \<le> sint b"
    and bound: "within_window_bound w s"
  shows "\<exists>s1. update_coin_seconds_earned s w now = Inr s1
            \<and> coin_seconds_earned s \<le> coin_seconds_earned s1
            \<and> sint (average_coins s) \<le> sint (average_coins s1)
            \<and> sint (average_coins s1) \<le> sint b
            \<and> within_window_bound w s1"
proof (cases "now_rounded now \<le> coin_seconds_earned_last_update s
              \<and> now_rounded now \<le> average_coins_last_update s")
  case True
  then have "update_coin_seconds_earned s w now = Inr s" by (simp add: update_cases)
  then show ?thesis using ab bound by simp
next
  case False
  have b0: "0 \<le> sint b" using a0 ab by simp
  let ?ne = "if now_rounded now \<le> coin_seconds_earned_last_update s
             then coin_seconds_earned s
             else coin_seconds_earned s
                  + (scast b :: uint128_t)
                    * scast (seconds_between (now_rounded now) (coin_seconds_earned_last_update s))"
  obtain e a where c: "compute_coin_seconds_earned s w now = Inr (e, a)"
    and lo: "min (sint (average_coins s)) (sint b) \<le> sint a"
    and hi: "sint a \<le> max (sint (average_coins s)) (sint b)"
    and e: "e = (if (scast a :: uint128_t) * ucast w < ?ne then scast a * ucast w else ?ne)"
    using compute_returns [OF eb b0 a0, of w now] by (auto simp add: Let_def)
  have a_lo: "sint (average_coins s) \<le> sint a" using lo ab by simp
  have a_hi: "sint a \<le> sint b" using hi ab by simp
  have a_0: "0 \<le> sint a" using a0 a_lo by simp
  have cap_old: "uint (coin_seconds_earned s) \<le> sint (average_coins s) * uint w"
    using bound uint_scast_mult_ucast [OF a0, of w] by (simp add: within_window_bound_def word_le_def)
  have cap_new: "uint ((scast a :: uint128_t) * ucast w) = sint a * uint w"
    using a_0 by (rule uint_scast_mult_ucast)
  have "sint (average_coins s) * uint w \<le> sint a * uint w"
    using a_lo by (simp add: mult_right_mono)
  with cap_old have below_cap: "uint (coin_seconds_earned s) \<le> uint ((scast a :: uint128_t) * ucast w)"
    by (simp add: cap_new)
  have below_ne: "uint (coin_seconds_earned s) \<le> uint ?ne"
  proof (cases "now_rounded now \<le> coin_seconds_earned_last_update s")
    case True
    then show ?thesis by simp
  next
    case later: False
    note D = seconds_between_later [OF later]
    let ?d = "seconds_between (now_rounded now) (coin_seconds_earned_last_update s)"
    let ?dcs = "(scast b :: uint128_t) * scast ?d"
    have d0: "0 \<le> sint ?d" using D(2) D(1) D(4) by simp
    have dcs: "uint ?dcs = sint b * sint ?d" using b0 d0 by (rule uint_scast_mult_scast)
    have d32: "sint ?d < 2 ^ 32" using D(3) D(1) D(4) by simp
    have "sint b * sint ?d \<le> 2 ^ 63 * 2 ^ 32"
      using b0 d0 d32 sint_range_64 [of b] by (intro mult_mono) simp_all
    moreover have "sint (average_coins s) * uint w \<le> 2 ^ 63 * 2 ^ 64"
      using a0 sint_range_64 [of "average_coins s"] uint_bounded [of w]
      by (intro mult_mono) simp_all
    ultimately have "uint (coin_seconds_earned s) + uint ?dcs < 2 ^ LENGTH(128)"
      using cap_old by (simp add: dcs)
    then have "uint (coin_seconds_earned s + ?dcs) = uint (coin_seconds_earned s) + uint ?dcs"
      by (simp only: uint_add_lem)
    moreover have "0 \<le> uint ?dcs" by simp
    ultimately show ?thesis using later by simp
  qed
  have e_ge: "coin_seconds_earned s \<le> e"
    using below_cap below_ne unfolding e by (simp add: word_le_def)
  let ?s1 = "s\<lparr>coin_seconds_earned := e,
                coin_seconds_earned_last_update := now_rounded now,
                average_coins := a,
                average_coins_last_update := now_rounded now\<rparr>"
  have "update_coin_seconds_earned s w now = Inr ?s1"
    by (simp add: update_cases False c)
  moreover have "within_window_bound w ?s1"
    using compute_within_bound [OF c] by (simp add: within_window_bound_def)
  ultimately show ?thesis using e_ge a_lo a_hi by simp
qed

section \<open>Stake-time accumulator: sequences of updates\<close>

lemma effective_balance_set_balances: "effective_balance (set_balances s u) = updated_balance u"
  by (simp add: effective_balance_def set_balances_def updated_balance_def)

lemma set_balances_fields:
  "average_coins (set_balances s u) = average_coins s"
  "coin_seconds_earned (set_balances s u) = coin_seconds_earned s"
  "within_window_bound w (set_balances s u) = within_window_bound w s"
  by (simp_all add: set_balances_def within_window_bound_def)

lemma balances_never_fall_mono:
  assumes "sint lo' \<le> sint lo" and "balances_never_fall lo us"
  shows "balances_never_fall lo' us"
  using assms by (cases us) (auto simp add: word_sle_eq split: sum.splits)

lemma update_keeps_bound:
  assumes "within_window_bound w s" and "update_coin_seconds_earned s w now = Inr s1"
  shows "within_window_bound w s1"
proof (cases "now_rounded now \<le> coin_seconds_earned_last_update s
              \<and> now_rounded now \<le> average_coins_last_update s")
  case True
  then have "s1 = s" using assms(2) by (simp add: update_cases)
  then show ?thesis using assms(1) by simp
next
  case False
  then obtain e a where c: "compute_coin_seconds_earned s w now = Inr (e, a)"
    and s1: "s1 = s\<lparr>coin_seconds_earned := e,
                    coin_seconds_earned_last_update := now_rounded now,
                    average_coins := a,
                    average_coins_last_update := now_rounded now\<rparr>"
    using assms(2) by (auto simp add: update_cases False split: sum.splits)
  show ?thesis using compute_within_bound [OF c] by (simp add: s1 within_window_bound_def)
qed

lemma update_commit_bound:
  assumes "\<not> (now_rounded now \<le> coin_seconds_earned_last_update s
              \<and> now_rounded now \<le> average_coins_last_update s)"
    and "update_coin_seconds_earned s w now = Inr s1"
  shows "within_window_bound w s1"
proof -
  obtain e a where c: "compute_coin_seconds_earned s w now = Inr (e, a)"
    and s1: "s1 = s\<lparr>coin_seconds_earned := e,
                    coin_seconds_earned_last_update := now_rounded now,
                    average_coins := a,
                    average_coins_last_update := now_rounded now\<rparr>"
    using assms(2) by (auto simp add: update_cases assms(1) split: sum.splits)
  show ?thesis using compute_within_bound [OF c] by (simp add: s1 within_window_bound_def)
qed

lemma bound_as_integers:
  assumes "within_window_bound w s" and "0 \<le> sint (average_coins s)"
  shows "uint (coin_seconds_earned s) \<le> sint (average_coins s) * uint w"
  using assms uint_scast_mult_ucast [OF assms(2), of w]
  by (simp add: within_window_bound_def word_le_def)

lemmas eval_stake_defs =
  update_sequence.simps update_coin_seconds_earned_def compute_coin_seconds_earned_def
  set_coin_seconds_earned_def effective_balance_def updated_balance_def set_balances_def
  now_rounded_def seconds_between_def to_uint64_def safe_add_def safe_sub_def
  within_window_bound_def fresh_statistics_def balance_withdrawn_def balance_raised_def
  Let_def word_sle_eq word_sless_alt

text \<open>
  Claim C4. \<open>coin_seconds_earned \<le> average_coins * window\<close> is an invariant of
  \<open>update_coin_seconds_earned\<close>: from a record that satisfies it (the fresh record does),
  after every call of any sequence of updates with one window, whatever the time stamps
  and whatever the balances installed in between, the earned value is at most the
  ceiling the code computes, the 128-bit product of the average and the window; where
  the average is not negative that product is the integer \<open>average_coins * window\<close>.
  Time stamps that do not decrease and a positive window are special cases. A call that
  recomputes (one that is not a no-op) establishes the bound from any record at all.
\<close>

theorem coin_seconds_earned_within_window_bound:
  assumes "within_window_bound window s" and "update_sequence window s us = Inr states"
  shows "list_all (within_window_bound window) states
       \<and> (\<forall>s1 \<in> set states. 0 \<le> sint (average_coins s1)
             \<longrightarrow> uint (coin_seconds_earned s1) \<le> sint (average_coins s1) * uint window)
       \<and> (\<forall>s0 now s1.
             \<not> (now_rounded now \<le> coin_seconds_earned_last_update s0
                  \<and> now_rounded now \<le> average_coins_last_update s0)
             \<and> update_coin_seconds_earned s0 window now = Inr s1
             \<longrightarrow> within_window_bound window s1)"
proof -
  have "list_all (within_window_bound window) states"
    using assms
  proof (induction us arbitrary: s states)
    case Nil
    then show ?case by simp
  next
    case (Cons u us)
    from Cons.prems(2) obtain s1 rest where
        s1: "update_coin_seconds_earned (set_balances s u) window (update_time u) = Inr s1"
      and rest: "update_sequence window s1 us = Inr rest" and states: "states = s1 # rest"
      by (auto simp add: bind_eq_Inr)
    have b1: "within_window_bound window s1"
      using Cons.prems(1) s1 by (intro update_keeps_bound [OF _ s1]) (simp add: set_balances_fields)
    then show ?case using Cons.IH [OF b1 rest] by (simp add: states)
  qed
  then have "list_all (within_window_bound window) states
       \<and> (\<forall>s1 \<in> set states. 0 \<le> sint (average_coins s1)
             \<longrightarrow> uint (coin_seconds_earned s1) \<le> sint (average_coins s1) * uint window)"
    by (auto simp add: list_all_iff intro: bound_as_integers)
  then show ?thesis using update_commit_bound by blast
qed

theorem coin_seconds_earned_within_window_bound_witness:
  "within_window_bound 60 fresh_statistics
   \<and> update_sequence 60 fresh_statistics balance_withdrawn
       = Inr [fresh_statistics\<lparr>core_balance := 1000, average_coins := 1000,
                average_coins_last_update := 60, coin_seconds_earned := 60000,
                coin_seconds_earned_last_update := 60\<rparr>,
              fresh_statistics\<lparr>average_coins_last_update := 120,
                coin_seconds_earned_last_update := 120\<rparr>]
   \<and> within_window_bound 60
         (fresh_statistics\<lparr>core_balance := 1000, average_coins := 1000,
            average_coins_last_update := 60, coin_seconds_earned := 60000,
            coin_seconds_earned_last_update := 60\<rparr>)
   \<and> uint (60000 :: 128 word) \<le> sint (1000 :: 64 word) * uint (60 :: 64 word)
   \<and> \<not> (now_rounded 60 \<le> coin_seconds_earned_last_update (fresh_statistics\<lparr>core_balance := 1000\<rparr>)
          \<and> now_rounded 60 \<le> average_coins_last_update (fresh_statistics\<lparr>core_balance := 1000\<rparr>))
   \<and> update_coin_seconds_earned (fresh_statistics\<lparr>core_balance := 1000\<rparr>) 60 60
       = Inr (fresh_statistics\<lparr>core_balance := 1000, average_coins := 1000,
                average_coins_last_update := 60, coin_seconds_earned := 60000,
                coin_seconds_earned_last_update := 60\<rparr>)"
  using coin_seconds_earned_within_window_bound
    [where window = 60 and s = fresh_statistics and us = balance_withdrawn
       and states = "[fresh_statistics\<lparr>core_balance := 1000, average_coins := 1000,
                average_coins_last_update := 60, coin_seconds_earned := 60000,
                coin_seconds_earned_last_update := 60\<rparr>,
              fresh_statistics\<lparr>average_coins_last_update := 120,
                coin_seconds_earned_last_update := 120\<rparr>]"]
  by (simp add: eval_stake_defs)

text \<open>
  Claim C3, amended. \<open>coin_seconds_earned\<close> does not decrease over a sequence of
  \<open>update_coin_seconds_earned\<close> calls when the effective balance never falls: starting
  from a record whose average is not negative and whose earned value is within the
  ceiling, if the first installed balance is at least the stored average and every
  later one is at least the one before, every call returns and the earned value after
  each call is at least the value before it. With the balance allowed to change
  arbitrarily the claim fails: a lower balance lowers \<open>new_average_coins * window\<close>, and
  the earned value is clamped down to it.
\<close>

theorem coin_seconds_earned_monotone_if_balance_never_falls:
  assumes "0 \<le>s average_coins s" and "within_window_bound window s"
    and "balances_never_fall (average_coins s) us"
  shows "\<exists>states. update_sequence window s us = Inr states
                \<and> sorted (map coin_seconds_earned (s # states))"
  using assms
proof (induction us arbitrary: s)
  case Nil
  then show ?case by simp
next
  case (Cons u us)
  from Cons.prems(3) obtain b where b: "updated_balance u = Inr b"
    and ab: "sint (average_coins s) \<le> sint b" and later: "balances_never_fall b us"
    by (auto simp add: word_sle_eq split: sum.splits)
  let ?s0 = "set_balances s u"
  have a0: "0 \<le> sint (average_coins ?s0)"
    using Cons.prems(1) by (simp add: set_balances_fields word_sle_eq)
  obtain s1 where s1: "update_coin_seconds_earned ?s0 window (update_time u) = Inr s1"
    and up: "coin_seconds_earned ?s0 \<le> coin_seconds_earned s1"
    and lo: "sint (average_coins ?s0) \<le> sint (average_coins s1)"
    and hi: "sint (average_coins s1) \<le> sint b"
    and b1: "within_window_bound window s1"
    using update_step [of ?s0 b window "update_time u"] b ab a0 Cons.prems(2)
    by (auto simp add: effective_balance_set_balances set_balances_fields)
  have "0 \<le>s average_coins s1" using a0 lo by (simp add: word_sle_eq)
  moreover have "balances_never_fall (average_coins s1) us"
    using hi later by (rule balances_never_fall_mono)
  ultimately obtain rest where rest: "update_sequence window s1 us = Inr rest"
    and sorted: "sorted (map coin_seconds_earned (s1 # rest))"
    using Cons.IH [of s1] b1 by blast
  have "update_sequence window s (u # us) = Inr (s1 # rest)" using s1 rest by simp
  moreover have "sorted (map coin_seconds_earned (s # s1 # rest))"
    using sorted up by (auto simp add: set_balances_fields)
  ultimately show ?case by blast
qed


theorem coin_seconds_earned_monotone_if_balance_never_falls_witness:
  "0 \<le>s average_coins fresh_statistics
   \<and> within_window_bound 120 fresh_statistics
   \<and> balances_never_fall (average_coins fresh_statistics) balance_raised
   \<and> update_sequence 120 fresh_statistics balance_raised
       = Inr [fresh_statistics\<lparr>core_balance := 1000, average_coins := 500,
                average_coins_last_update := 60, coin_seconds_earned := 60000,
                coin_seconds_earned_last_update := 60\<rparr>,
              fresh_statistics\<lparr>core_balance := 1500, average_coins := 1000,
                average_coins_last_update := 120, coin_seconds_earned := 120000,
                coin_seconds_earned_last_update := 120\<rparr>]
   \<and> sorted [0, 60000, 120000 :: 128 word]"
  using coin_seconds_earned_monotone_if_balance_never_falls
    [where window = 120 and s = fresh_statistics and us = balance_raised]
  by (simp add: eval_stake_defs)

theorem coin_seconds_earned_decreases_counterexample:
  "update_sequence 60 fresh_statistics balance_withdrawn
       = Inr [fresh_statistics\<lparr>core_balance := 1000, average_coins := 1000,
                average_coins_last_update := 60, coin_seconds_earned := 60000,
                coin_seconds_earned_last_update := 60\<rparr>,
              fresh_statistics\<lparr>average_coins_last_update := 120,
                coin_seconds_earned_last_update := 120\<rparr>]
   \<and> map update_time balance_withdrawn = [60, 120]
   \<and> coin_seconds_earned (fresh_statistics\<lparr>average_coins_last_update := 120,
                coin_seconds_earned_last_update := 120\<rparr>)
       < coin_seconds_earned (fresh_statistics\<lparr>core_balance := 1000, average_coins := 1000,
                average_coins_last_update := 60, coin_seconds_earned := 60000,
                coin_seconds_earned_last_update := 60\<rparr>)"
  by (simp add: eval_stake_defs)

text \<open>
  Claim C8, amended. \<open>update_coin_seconds_earned\<close> changes no field when the rounded time
  is after neither time stamp, that is when \<open>now_rounded \<le> coin_seconds_earned_last_update\<close>
  and \<open>now_rounded \<le> average_coins_last_update\<close>. Otherwise it commits the pair that
  \<open>compute_coin_seconds_earned\<close> returns for the same arguments and sets both time
  stamps to the rounded time, leaving the other fields alone; a fault of the computation
  is passed on, and there is none when the effective balance is computed without
  overflow and neither it nor the stored average is negative. As stated the claim fails:
  a rounded time that is after one time stamp only is not a no-op.
\<close>

theorem update_noop_only_if_not_after_both:
  "(now_rounded now \<le> coin_seconds_earned_last_update s
      \<and> now_rounded now \<le> average_coins_last_update s
     \<longrightarrow> update_coin_seconds_earned s window now = Inr s)
   \<and> (\<not> (now_rounded now \<le> coin_seconds_earned_last_update s
           \<and> now_rounded now \<le> average_coins_last_update s)
     \<longrightarrow> (\<forall>e a. compute_coin_seconds_earned s window now = Inr (e, a)
            \<longrightarrow> update_coin_seconds_earned s window now
                = Inr (s\<lparr>coin_seconds_earned := e,
                         coin_seconds_earned_last_update := now_rounded now,
                         average_coins := a,
                         average_coins_last_update := now_rounded now\<rparr>))
         \<and> (\<forall>x. compute_coin_seconds_earned s window now = Inl x
            \<longrightarrow> update_coin_seconds_earned s window now = Inl x)
         \<and> (\<forall>b. effective_balance s = Inr b \<and> 0 \<le>s b \<and> 0 \<le>s average_coins s
            \<longrightarrow> (\<exists>e a. compute_coin_seconds_earned s window now = Inr (e, a))))"
proof (intro conjI impI allI)
  assume "now_rounded now \<le> coin_seconds_earned_last_update s
          \<and> now_rounded now \<le> average_coins_last_update s"
  then show "update_coin_seconds_earned s window now = Inr s" by (simp add: update_cases)
next
  fix e a
  assume after: "\<not> (now_rounded now \<le> coin_seconds_earned_last_update s
                     \<and> now_rounded now \<le> average_coins_last_update s)"
    and "compute_coin_seconds_earned s window now = Inr (e, a)"
  then show "update_coin_seconds_earned s window now
                = Inr (s\<lparr>coin_seconds_earned := e,
                         coin_seconds_earned_last_update := now_rounded now,
                         average_coins := a,
                         average_coins_last_update := now_rounded now\<rparr>)"
    by (simp add: update_cases after)
next
  fix x
  assume after: "\<not> (now_rounded now \<le> coin_seconds_earned_last_update s
                     \<and> now_rounded now \<le> average_coins_last_update s)"
    and "compute_coin_seconds_earned s window now = Inl x"
  then show "update_coin_seconds_earned s window now = Inl x"
    by (simp add: update_cases after)
next
  fix b
  assume "effective_balance s = Inr b \<and> 0 \<le>s b \<and> 0 \<le>s average_coins s"
  then have "effective_balance s = Inr b" "0 \<le> sint b" "0 \<le> sint (average_coins s)"
    by (simp_all add: word_sle_eq)
  then show "\<exists>e a. compute_coin_seconds_earned s window now = Inr (e, a)"
    using compute_returns [of s b window now] by blast
qed

theorem update_noop_only_if_not_after_both_witness:
  "now_rounded 30 \<le> coin_seconds_earned_last_update fresh_statistics
   \<and> now_rounded 30 \<le> average_coins_last_update fresh_statistics
   \<and> update_coin_seconds_earned fresh_statistics 60 30 = Inr fresh_statistics
   \<and> \<not> (now_rounded 90 \<le> coin_seconds_earned_last_update (fresh_statistics\<lparr>core_balance := 1000\<rparr>)
          \<and> now_rounded 90 \<le> average_coins_last_update (fresh_statistics\<lparr>core_balance := 1000\<rparr>))
   \<and> effective_balance (fresh_statistics\<lparr>core_balance := 1000\<rparr>) = Inr 1000
   \<and> 0 \<le>s (1000 :: 64 word) \<and> 0 \<le>s average_coins (fresh_statistics\<lparr>core_balance := 1000\<rparr>)
   \<and> compute_coin_seconds_earned (fresh_statistics\<lparr>core_balance := 1000\<rparr>) 60 90 = Inr (60000, 1000)
   \<and> update_coin_seconds_earned (fresh_statistics\<lparr>core_balance := 1000\<rparr>) 60 90
       = Inr (fresh_statistics\<lparr>core_balance := 1000, average_coins := 1000,
                average_coins_last_update := 60, coin_seconds_earned := 60000,
                coin_seconds_earned_last_update := 60\<rparr>)"
  using update_noop_only_if_not_after_both [where s = fresh_statistics and window = 60 and now = 30]
    update_noop_only_if_not_after_both
      [where s = "fresh_statistics\<lparr>core_balance := 1000\<rparr>" and window = 60 and now = 90]
  by (simp add: eval_stake_defs)

theorem update_after_one_timestamp_counterexample:
  "set_coin_seconds_earned (fresh_statistics\<lparr>core_balance := 1000\<rparr>) 0 120
     = fresh_statistics\<lparr>core_balance := 1000, coin_seconds_earned_last_update := 120\<rparr>
   \<and> now_rounded 60
       \<le> coin_seconds_earned_last_update
            (fresh_statistics\<lparr>core_balance := 1000, coin_seconds_earned_last_update := 120\<rparr>)
   \<and> update_coin_seconds_earned
         (fresh_statistics\<lparr>core_balance := 1000, coin_seconds_earned_last_update := 120\<rparr>) 60 60
       = Inr (fresh_statistics\<lparr>core_balance := 1000, average_coins := 1000,
                average_coins_last_update := 60, coin_seconds_earned_last_update := 60\<rparr>)
   \<and> fresh_statistics\<lparr>core_balance := 1000, average_coins := 1000,
         average_coins_last_update := 60, coin_seconds_earned_last_update := 60\<rparr>
       \<noteq> fresh_statistics\<lparr>core_balance := 1000, coin_seconds_earned_last_update := 120\<rparr>"
  by (simp add: eval_stake_defs)

section \<open>Membership index: incremental maintenance against a rebuild\<close>

lemma fold_insert_image: "fold (\<lambda>x r. insert (f x) r) xs A = f ` set xs \<union> A"
  by (induction xs arbitrary: A) auto

lemma get_account_members_eq:
  "get_account_members a =
     (auth_uid \<circ> fst) ` set (account_uid_auths (owner a))
     \<union> (auth_uid \<circ> fst) ` set (account_uid_auths (active a))
     \<union> (auth_uid \<circ> fst) ` set (account_uid_auths (secondary a))"
  by (auto simp add: get_account_members_def Let_def fold_insert_image)

lemma get_key_members_eq:
  "get_key_members a =
     insert (memo_key a) (fst ` set (key_auths (owner a)) \<union> fst ` set (key_auths (active a)))"
  by (auto simp add: get_key_members_def Let_def fold_insert_image)

lemma finite_get_account_members [simp]: "finite (get_account_members a)"
  by (simp add: get_account_members_eq)

lemma finite_get_key_members [simp]: "finite (get_key_members a)"
  by (simp add: get_key_members_eq)

lemma fold_insert_at:
  "fold (insert_at u) xs rel = (\<lambda>m. if m \<in> set xs then insert u (rel m) else rel m)"
  by (induction xs arbitrary: rel) (auto simp add: insert_at_def fun_eq_iff)

lemma fold_erase_at:
  "fold (erase_at u) xs rel = (\<lambda>m. if m \<in> set xs then rel m - {u} else rel m)"
  by (induction xs arbitrary: rel) (auto simp add: erase_at_def fun_eq_iff)

lemma set_set_difference: "finite xs \<Longrightarrow> set (set_difference xs ys) = xs - ys"
  by (simp add: set_difference_def)

lemma object_inserted_relations:
  "account_to_account_memberships (object_inserted idx a) =
     (\<lambda>m. if m \<in> get_account_members a then insert (uid a) (account_to_account_memberships idx m)
          else account_to_account_memberships idx m)"
  "account_to_key_memberships (object_inserted idx a) =
     (\<lambda>k. if k \<in> get_key_members a then insert (uid a) (account_to_key_memberships idx k)
          else account_to_key_memberships idx k)"
  by (auto simp add: object_inserted_def Let_def fold_insert_at fun_eq_iff)

lemma object_removed_relations:
  "account_to_account_memberships (object_removed idx a) =
     (\<lambda>m. if m \<in> get_account_members a then account_to_account_memberships idx m - {uid a}
          else account_to_account_memberships idx m)"
  "account_to_key_memberships (object_removed idx a) =
     (\<lambda>k. if k \<in> get_key_members a then account_to_key_memberships idx k - {uid a}
          else account_to_key_memberships idx k)"
  by (auto simp add: object_removed_def Let_def fold_erase_at fun_eq_iff)

lemma object_modified_relations:
  "account_to_account_memberships (object_modified (about_to_modify idx before_obj) a) =
     (\<lambda>m. if m \<in> get_account_members a
          then (if m \<in> get_account_members before_obj then account_to_account_memberships idx m
                else insert (uid a) (account_to_account_memberships idx m))
          else (if m \<in> get_account_members before_obj then account_to_account_memberships idx m - {uid a}
                else account_to_account_memberships idx m))"
  "account_to_key_memberships (object_modified (about_to_modify idx before_obj) a) =
     (\<lambda>k. if k \<in> get_key_members a
          then (if k \<in> get_key_members before_obj then account_to_key_memberships idx k
                else insert (uid a) (account_to_key_memberships idx k))
          else (if k \<in> get_key_members before_obj then account_to_key_memberships idx k - {uid a}
                else account_to_key_memberships idx k))"
  by (auto simp add: object_modified_def about_to_modify_def Let_def fold_insert_at fold_erase_at
        set_set_difference fun_eq_iff)


lemma referencing_split:
  assumes d: "distinct (map uid live)" and b: "b \<in> set live"
  shows "uid ` {x \<in> set live. P x}
           = uid ` {x \<in> set live - {b}. P x} \<union> (if P b then {uid b} else {})"
    and "uid b \<notin> uid ` {x \<in> set live - {b}. P x}"
proof -
  show "uid ` {x \<in> set live. P x}
           = uid ` {x \<in> set live - {b}. P x} \<union> (if P b then {uid b} else {})"
    using b by auto
  have "inj_on uid (set live)" using d by (simp add: distinct_map)
  then show "uid b \<notin> uid ` {x \<in> set live - {b}. P x}"
    using b by (auto dest: inj_onD)
qed

lemma distinct_uid_replace:
  assumes "distinct (map uid live)" and "uid a = uid b"
  shows "map uid (map (\<lambda>x. if x = b then a else x) live) = map uid live"
  using assms(2) by (induction live) auto

lemma set_replace:
  assumes "b \<in> set live"
  shows "set (map (\<lambda>x. if x = b then a else x) live) = insert a (set live - {b})"
  using assms by auto

lemma inserted_pointwise:
  "(if P a then insert (uid a) (uid ` {x \<in> set live. P x}) else uid ` {x \<in> set live. P x})
     = uid ` {x \<in> set (live @ [a]). P x}"
  by auto

lemma removed_pointwise:
  assumes d: "distinct (map uid live)" and a: "a \<in> set live"
  shows "(if P a then uid ` {x \<in> set live. P x} - {uid a} else uid ` {x \<in> set live. P x})
           = uid ` {x \<in> set (removeAll a live). P x}"
proof -
  let ?X = "uid ` {x \<in> set live - {a}. P x}"
  note S = referencing_split [OF d a, of P]
  have R: "uid ` {x \<in> set (removeAll a live). P x} = ?X" by auto
  show ?thesis
  proof (cases "P a")
    case True
    then have "uid ` {x \<in> set live. P x} = ?X \<union> {uid a}" using S(1) by simp
    then have "uid ` {x \<in> set live. P x} - {uid a} = ?X" using S(2) by blast
    then show ?thesis using True R by simp
  next
    case False
    then have "uid ` {x \<in> set live. P x} = ?X" using S(1) by simp
    then show ?thesis using False R by simp
  qed
qed

lemma modified_pointwise:
  assumes d: "distinct (map uid live)" and b: "b \<in> set live" and u: "uid a = uid b"
  shows "(if P a
          then (if P b then uid ` {x \<in> set live. P x}
                else insert (uid a) (uid ` {x \<in> set live. P x}))
          else (if P b then uid ` {x \<in> set live. P x} - {uid a}
                else uid ` {x \<in> set live. P x}))
           = uid ` {x \<in> set (map (\<lambda>x. if x = b then a else x) live). P x}"
proof -
  let ?X = "uid ` {x \<in> set live - {b}. P x}"
  note S = referencing_split [OF d b, of P]
  have "{x \<in> set (map (\<lambda>x. if x = b then a else x) live). P x}
          = {x \<in> set live - {b}. P x} \<union> (if P a then {a} else {})"
    unfolding set_replace [OF b] by auto
  then have R: "uid ` {x \<in> set (map (\<lambda>x. if x = b then a else x) live). P x}
          = ?X \<union> (if P a then {uid b} else {})"
    using u by (simp add: image_Un)
  show ?thesis
  proof (cases "P b")
    case True
    then have old: "uid ` {x \<in> set live. P x} = ?X \<union> {uid b}" using S(1) by simp
    have "?X \<union> {uid b} - {uid b} = ?X" using S(2) by blast
    then show ?thesis unfolding R old u using True by auto
  next
    case False
    then have old: "uid ` {x \<in> set live. P x} = ?X" using S(1) by simp
    show ?thesis unfolding R old u using False by auto
  qed
qed

lemma consistent_step:
  assumes c: "consistent live idx" and v: "valid_event live e"
  shows "consistent (live_after live e) (notify idx e)"
proof -
  have d: "distinct (map uid live)"
    and aa: "account_to_account_memberships idx = referencing_accounts live"
    and ak: "account_to_key_memberships idx = referencing_keys live"
    using c by (simp_all add: consistent_def)
  show ?thesis
  proof (cases e)
    case (Inserted a)
    then have fresh: "uid a \<notin> uid ` set live" using v by simp
    have "distinct (map uid (live @ [a]))" using d fresh by auto
    moreover have "account_to_account_memberships (object_inserted idx a)
                     = referencing_accounts (live @ [a])"
      unfolding object_inserted_relations aa referencing_accounts_def
      by (rule ext) (rule inserted_pointwise)
    moreover have "account_to_key_memberships (object_inserted idx a)
                     = referencing_keys (live @ [a])"
      unfolding object_inserted_relations ak referencing_keys_def
      by (rule ext) (rule inserted_pointwise)
    ultimately show ?thesis by (simp add: Inserted consistent_def)
  next
    case (Removed a)
    then have a: "a \<in> set live" using v by simp
    have "distinct (map uid (removeAll a live))"
      using d by (simp add: distinct_map_filter removeAll_filter_not_eq)
    moreover have "account_to_account_memberships (object_removed idx a)
                     = referencing_accounts (removeAll a live)"
      unfolding object_removed_relations aa referencing_accounts_def
      by (rule ext) (rule removed_pointwise [OF d a])
    moreover have "account_to_key_memberships (object_removed idx a)
                     = referencing_keys (removeAll a live)"
      unfolding object_removed_relations ak referencing_keys_def
      by (rule ext) (rule removed_pointwise [OF d a])
    ultimately show ?thesis by (simp add: Removed consistent_def)
  next
    case (Modified b a)
    then have b: "b \<in> set live" and u: "uid a = uid b" using v by simp_all
    let ?live = "map (\<lambda>x. if x = b then a else x) live"
    have "distinct (map uid ?live)" using d by (simp only: distinct_uid_replace [OF d u])
    moreover have "account_to_account_memberships (object_modified (about_to_modify idx b) a)
                     = referencing_accounts ?live"
      unfolding object_modified_relations aa referencing_accounts_def
      by (rule ext) (rule modified_pointwise [OF d b u])
    moreover have "account_to_key_memberships (object_modified (about_to_modify idx b) a)
                     = referencing_keys ?live"
      unfolding object_modified_relations ak referencing_keys_def
      by (rule ext) (rule modified_pointwise [OF d b u])
    ultimately show ?thesis by (simp add: Modified consistent_def)
  qed
qed


lemma fold_object_inserted_relations:
  "account_to_account_memberships (fold (\<lambda>a i. object_inserted i a) xs idx) m
     = account_to_account_memberships idx m \<union> referencing_accounts xs m"
  "account_to_key_memberships (fold (\<lambda>a i. object_inserted i a) xs idx) k
     = account_to_key_memberships idx k \<union> referencing_keys xs k"
proof (induction xs arbitrary: idx)
  case Nil
  {
    case 1
    show ?case by (simp add: referencing_accounts_def)
  next
    case 2
    show ?case by (simp add: referencing_keys_def)
  }
next
  case (Cons x xs)
  {
    case 1
    show ?case
      by (auto simp add: Cons.IH(1) object_inserted_relations referencing_accounts_def)
  next
    case 2
    show ?case
      by (auto simp add: Cons.IH(2) object_inserted_relations referencing_keys_def)
  }
qed

lemma rebuild_relations:
  "account_to_account_memberships (rebuild live) = referencing_accounts live"
  "account_to_key_memberships (rebuild live) = referencing_keys live"
  by (rule ext, simp add: rebuild_def fold_object_inserted_relations empty_index_def)+

lemma consistent_replay:
  assumes "consistent live idx" and "valid_history live es"
  shows "consistent (live_accounts live es) (replay idx es)"
  using assms
proof (induction es arbitrary: live idx)
  case Nil
  then show ?case by (simp add: live_accounts_def replay_def)
next
  case (Cons e es)
  have "consistent (live_after live e) (notify idx e)"
    using Cons.prems by (intro consistent_step) simp_all
  moreover have "valid_history (live_after live e) es" using Cons.prems(2) by simp
  ultimately have "consistent (live_accounts (live_after live e) es) (replay (notify idx e) es)"
    by (rule Cons.IH)
  then show ?case by (simp add: live_accounts_def replay_def)
qed

text \<open>
  Claim C2. For every sequence of lifecycle events on account objects (insertions of
  accounts with a new uid, modifications of a live account that keep its uid, each
  preceded by its \<open>about_to_modify\<close> snapshot, and removals of live accounts), starting
  from live accounts with distinct uids and an index that agrees with the rebuilt one
  (the empty index for no accounts), the incrementally maintained
  \<open>account_to_account_memberships\<close> and \<open>account_to_key_memberships\<close> are the relations
  obtained by rebuilding from scratch over the live accounts: for every member, its
  reverse set is exactly the set of uids of the live accounts whose
  \<open>get_account_members\<close>, respectively \<open>get_key_members\<close>, contain it.
\<close>

theorem incremental_index_equals_rebuild:
  assumes "distinct (map uid live)"
    and "account_to_account_memberships idx = account_to_account_memberships (rebuild live)"
    and "account_to_key_memberships idx = account_to_key_memberships (rebuild live)"
    and "valid_history live es"
  shows "account_to_account_memberships (replay idx es)
           = account_to_account_memberships (rebuild (live_accounts live es))
       \<and> account_to_key_memberships (replay idx es)
           = account_to_key_memberships (rebuild (live_accounts live es))
       \<and> (\<forall>m. account_to_account_memberships (replay idx es) m
                = referencing_accounts (live_accounts live es) m)
       \<and> (\<forall>k. account_to_key_memberships (replay idx es) k
                = referencing_keys (live_accounts live es) k)"
proof -
  have "consistent live idx"
    using assms(1-3) by (simp add: consistent_def rebuild_relations)
  then have "consistent (live_accounts live es) (replay idx es)"
    using assms(4) by (rule consistent_replay)
  then show ?thesis by (simp add: consistent_def rebuild_relations)
qed

theorem incremental_index_equals_rebuild_witness:
  "distinct (map uid ([] :: nat account_object list))
   \<and> account_to_account_memberships (empty_index :: nat account_member_index)
       = account_to_account_memberships (rebuild ([] :: nat account_object list))
   \<and> account_to_key_memberships (empty_index :: nat account_member_index)
       = account_to_key_memberships (rebuild ([] :: nat account_object list))
   \<and> valid_history [] example_history
   \<and> account_to_account_memberships (replay empty_index example_history)
       = account_to_account_memberships (rebuild (live_accounts [] example_history))
   \<and> account_to_key_memberships (replay empty_index example_history)
       = account_to_key_memberships (rebuild (live_accounts [] example_history))
   \<and> account_to_account_memberships (replay empty_index example_history) 20 = {11}
   \<and> account_to_account_memberships (replay empty_index example_history) 30 = {10}
   \<and> account_to_key_memberships (replay empty_index example_history) 7 = {10}"
proof -
  have h1: "distinct (map uid ([] :: nat account_object list))" by simp
  have h2: "account_to_account_memberships (empty_index :: nat account_member_index)
              = account_to_account_memberships (rebuild ([] :: nat account_object list))"
    by (simp add: rebuild_def)
  have h3: "account_to_key_memberships (empty_index :: nat account_member_index)
              = account_to_key_memberships (rebuild ([] :: nat account_object list))"
    by (simp add: rebuild_def)
  have h4: "valid_history [] example_history" by code_simp
  have concrete:
    "account_to_account_memberships (replay empty_index example_history) 20 = {11}"
    "account_to_account_memberships (replay empty_index example_history) 30 = {10}"
    "account_to_key_memberships (replay empty_index example_history) 7 = {10}"
    by code_simp+
  from incremental_index_equals_rebuild [OF h1 h2 h3 h4] h1 h2 h3 h4 concrete
  show ?thesis by simp
qed

end
